theory Spec2Isabelle
  imports Main "HOL-Library.AList" "HOL-Library.Word"
begin

section \<open>The buffer pool core of scudb: LRU replacer, extendible hash, buffer pool manager\<close>

text \<open>
  The three source files are embedded as state-passing functions. Mutexes are not
  modelled: every operation is taken as one sequential step on the state it locks.
\<close>

subsection \<open>\<open>lru_replacer.cpp\<close>\<close>

text \<open>
  The replacer keeps a doubly linked chain of nodes between the sentinels \<open>head\<close> and
  \<open>tail\<close>, and a \<open>map\<close> from each value to its node. The state is represented by the
  list of the values of the chain, read from \<open>head->next\<close> (first element) to
  \<open>tail->prev\<close> (last element); a value is a key of \<open>map\<close> exactly when it is in the
  list, so \<open>map.find(value) != map.end()\<close> is membership, \<open>map.empty()\<close> is the empty
  list and \<open>map.size()\<close> is the length.
\<close>

type_synonym 'a LRUReplacer = "'a list"

definition LRUReplacer_new :: "'a LRUReplacer" where
  "LRUReplacer_new = []"

text \<open>\<open>Insert\<close>: unlink the node of \<open>value\<close> if there is one, then link it after \<open>head\<close>.\<close>

definition lru_Insert :: "'a \<Rightarrow> 'a LRUReplacer \<Rightarrow> 'a LRUReplacer" where
  "lru_Insert v r = (if v \<in> set r then v # remove1 v r else v # r)"

text \<open>
  \<open>Victim(T &value)\<close>: the result is the returned flag, the content of the reference
  parameter after the call (given its content before), and the new state.
\<close>

definition lru_Victim :: "'a \<Rightarrow> 'a LRUReplacer \<Rightarrow> bool \<times> 'a \<times> 'a LRUReplacer" where
  "lru_Victim v r = (if r = [] then (False, v, r) else (True, last r, butlast r))"

definition lru_Erase :: "'a \<Rightarrow> 'a LRUReplacer \<Rightarrow> bool \<times> 'a LRUReplacer" where
  "lru_Erase v r = (if v \<in> set r then (True, remove1 v r) else (False, r))"

definition lru_Size :: "'a LRUReplacer \<Rightarrow> nat" where
  "lru_Size r = length r"

text \<open>
  Histories of replacer calls, most recent call first, and the state they lead to from
  the state of the constructor. \<open>CallVictim v\<close> is a call of \<open>Victim\<close> with a reference
  parameter that holds \<open>v\<close> before the call.
\<close>

datatype 'a lru_call = CallInsert 'a | CallErase 'a | CallVictim 'a

fun lru_call_apply :: "'a lru_call \<Rightarrow> 'a LRUReplacer \<Rightarrow> 'a LRUReplacer" where
  "lru_call_apply (CallInsert v) r = lru_Insert v r"
| "lru_call_apply (CallErase v) r = snd (lru_Erase v r)"
| "lru_call_apply (CallVictim v) r = snd (snd (lru_Victim v r))"

fun lru_after :: "'a lru_call list \<Rightarrow> 'a LRUReplacer" where
  "lru_after [] = LRUReplacer_new"
| "lru_after (c # h) = lru_call_apply c (lru_after h)"

text \<open>
  Following the words of the specification ("the one whose most recent Insert is
  oldest"): the number of calls made since the most recent \<open>Insert\<close> of a value, if
  there was one.
\<close>

fun calls_since_insert :: "'a lru_call list \<Rightarrow> 'a \<Rightarrow> nat option" where
  "calls_since_insert [] v = None"
| "calls_since_insert (CallInsert u # h) v =
     (if u = v then Some 0 else map_option Suc (calls_since_insert h v))"
| "calls_since_insert (c # h) v = map_option Suc (calls_since_insert h v)"

definition inserted_before :: "'a lru_call list \<Rightarrow> 'a \<Rightarrow> 'a \<Rightarrow> bool" where
  "inserted_before h v u =
     (case (calls_since_insert h v, calls_since_insert h u) of
        (Some a, Some b) \<Rightarrow> b < a
      | _ \<Rightarrow> False)"

subsection \<open>Errors\<close>

text \<open>
  Where the C++ has no defined behaviour, or aborts, the run ends with an error: an
  \<open>assert\<close> that fails, the dereference of \<open>nullptr\<close>, and \<open>1 << d\<close> on an \<open>int\<close>
  when \<open>d\<close> is not less than the width of \<open>int\<close>.
\<close>

datatype error = AssertionFailed | NullDereference | UndefinedShift

text \<open>
  Arithmetic on a C++ \<open>int\<close> is arithmetic on 32-bit words, around the ends of the
  range. \<open>1 << d\<close> is the word with bit \<open>d\<close> set for \<open>d < 32\<close> (\<open>1 << 31\<close> is the least
  \<open>int\<close>); a shift by 32 or more has no defined result and is an error of the run.
  Where an \<open>int\<close> meets a \<open>size_t\<close> in \<open>&\<close>, it is converted to \<open>size_t\<close>: its signed
  value modulo \<open>2 ^ 64\<close>.
\<close>

definition shl_int :: "nat \<Rightarrow> error + 32 word" where
  "shl_int d = (if d < 32 then Inr (push_bit d 1) else Inl UndefinedShift)"

definition to_size_t :: "32 word \<Rightarrow> nat" where
  "to_size_t w = nat (sint w mod 2 ^ 64)"

subsection \<open>\<open>extendible_hash.cpp\<close>\<close>

text \<open>
  A bucket is shared by the directory slots that point to it (\<open>shared_ptr<Bucket>\<close>) and
  the split compares pointers, so the buckets live in an explicit store: \<open>heap\<close> maps
  an address to the bucket there, \<open>make_shared\<close> takes the address \<open>heapTop\<close>, and the
  directory \<open>buckets\<close> is a list of addresses. \<open>localDepth\<close> and \<open>globalDepth\<close> are C++
  \<open>int\<close>s that start at 0 and are only ever incremented by one; they are natural
  numbers here, and every shift by one of them goes through \<open>shl_int\<close>. \<open>bucketNum\<close>
  is an \<open>int\<close> that is incremented at every split: a 32-bit word. \<open>kmap\<close> (a
  \<open>std::map\<close>) is an association list with \<open>kmap[key] = value\<close> as \<open>AList.update\<close> and
  \<open>erase\<close> as \<open>AList.delete\<close>, which keep the keys of the list distinct; the code observes its lookups, its size and, in the
  split, each of its entries. \<open>HashKey\<close> is \<open>std::hash<K>\<close>, a parameter: the \<open>size_t\<close>
  it returns is read as a natural number.
\<close>

record ('k, 'v) Bucket =
  localDepth :: nat
  kmap :: "('k \<times> 'v) list"

record ('k, 'v) ExtendibleHash =
  globalDepth :: nat
  bucketSize :: nat
  bucketNum :: "32 word"
  buckets :: "nat list"
  heap :: "nat \<Rightarrow> ('k, 'v) Bucket"
  heapTop :: nat

definition Bucket_new :: "nat \<Rightarrow> ('k, 'v) Bucket" where
  "Bucket_new depth = \<lparr>localDepth = depth, kmap = []\<rparr>"

definition ExtendibleHash_new :: "nat \<Rightarrow> ('k, 'v) ExtendibleHash" where
  "ExtendibleHash_new sz =
     \<lparr>globalDepth = 0, bucketSize = sz, bucketNum = 1, buckets = [0],
      heap = (\<lambda>a. Bucket_new 0), heapTop = 1\<rparr>"

text \<open>
  \<open>getIdx\<close>: \<open>HashKey(key) & ((1 << globalDepth) - 1)\<close>, the subtraction on \<open>int\<close> and the
  \<open>&\<close> on \<open>size_t\<close>. For a global depth below 32 the result is below \<open>2 ^ 31\<close>, which the
  \<open>int\<close> that \<open>getIdx\<close> returns holds.
\<close>

definition getIdx :: "('k \<Rightarrow> nat) \<Rightarrow> 'k \<Rightarrow> ('k, 'v) ExtendibleHash \<Rightarrow> error + nat" where
  "getIdx HashKey key t =
     (case shl_int (globalDepth t) of
        Inl e \<Rightarrow> Inl e
      | Inr p \<Rightarrow> Inr (and (HashKey key) (to_size_t (p - 1))))"

text \<open>
  \<open>Find(const K &key, V &value)\<close>: the flag and the content of \<open>value\<close> after the call.
\<close>

definition Find ::
  "('k \<Rightarrow> nat) \<Rightarrow> 'k \<Rightarrow> 'v \<Rightarrow> ('k, 'v) ExtendibleHash \<Rightarrow> error + (bool \<times> 'v)" where
  "Find HashKey key val t =
     (case getIdx HashKey key t of
        Inl e \<Rightarrow> Inl e
      | Inr index \<Rightarrow>
          Inr (case map_of (kmap (heap t (buckets t ! index))) key of
                 None \<Rightarrow> (False, val)
               | Some w \<Rightarrow> (True, w)))"

definition Remove ::
  "('k \<Rightarrow> nat) \<Rightarrow> 'k \<Rightarrow> ('k, 'v) ExtendibleHash
     \<Rightarrow> error + (bool \<times> ('k, 'v) ExtendibleHash)" where
  "Remove HashKey key t =
     (case getIdx HashKey key t of
        Inl e \<Rightarrow> Inl e
      | Inr index \<Rightarrow>
          (let cur = buckets t ! index in
           if map_of (kmap (heap t cur)) key = None then Inr (False, t)
           else Inr (True, t\<lparr>heap := (heap t)
                   (cur := (heap t cur)\<lparr>kmap := AList.delete key (kmap (heap t cur))\<rparr>)\<rparr>)))"

text \<open>
  One pass of the body of the loop of \<open>Insert\<close> after the test for room (lines 119 to
  149), in the order of the code: increment the local depth of \<open>cur\<close>; if it now
  exceeds the global depth, append a copy of the directory to itself and increment the
  global depth (lines 122 to 128, \<open>double_directory\<close>); then allocate \<open>newBuc\<close>, compute
  \<open>mask = 1 << (localDepth - 1)\<close>, move the entries whose hash has a \<open>mask\<close> bit set,
  and redirect the slots of \<open>cur\<close> whose index has one set (lines 130 to 148:
  \<open>redistribute\<close>, which is given the incremented local depth, computes the mask, and
  \<open>rehash\<close>, the rest of these lines for a given mask).
\<close>

definition double_directory :: "('k, 'v) ExtendibleHash \<Rightarrow> ('k, 'v) ExtendibleHash" where
  "double_directory t =
     t\<lparr>globalDepth := globalDepth t + 1, buckets := buckets t @ buckets t\<rparr>"

definition rehash ::
  "('k \<Rightarrow> nat) \<Rightarrow> nat \<Rightarrow> nat \<Rightarrow> nat \<Rightarrow> ('k, 'v) ExtendibleHash \<Rightarrow> ('k, 'v) ExtendibleHash" where
  "rehash HashKey cur ld msk t =
     (let newBuc = heapTop t;
          moved = filter (\<lambda>kv. and (HashKey (fst kv)) msk \<noteq> 0) (kmap (heap t cur));
          kept = filter (\<lambda>kv. \<not> and (HashKey (fst kv)) msk \<noteq> 0) (kmap (heap t cur));
          dir = map (\<lambda>i. if buckets t ! i = cur \<and> and i msk \<noteq> 0 then newBuc else buckets t ! i)
                  [0 ..< length (buckets t)]
      in t\<lparr>bucketNum := bucketNum t + 1, buckets := dir,
           heap := (heap t)(cur := \<lparr>localDepth = ld, kmap = kept\<rparr>,
                            newBuc := \<lparr>localDepth = ld, kmap = moved\<rparr>),
           heapTop := newBuc + 1\<rparr>)"

definition redistribute ::
  "('k \<Rightarrow> nat) \<Rightarrow> nat \<Rightarrow> nat \<Rightarrow> ('k, 'v) ExtendibleHash \<Rightarrow> error + ('k, 'v) ExtendibleHash" where
  "redistribute HashKey cur ld t =
     (case shl_int (ld - 1) of
        Inl e \<Rightarrow> Inl e
      | Inr m \<Rightarrow> Inr (rehash HashKey cur ld (to_size_t m) t))"

definition split_bucket ::
  "('k \<Rightarrow> nat) \<Rightarrow> nat \<Rightarrow> ('k, 'v) ExtendibleHash \<Rightarrow> error + ('k, 'v) ExtendibleHash" where
  "split_bucket HashKey cur t =
     (let ld = localDepth (heap t cur) + 1 in
      redistribute HashKey cur ld (if ld > globalDepth t then double_directory t else t))"

text \<open>
  The test at the head of the loop (line 114): the bucket has room, or it holds the key
  already. Then \<open>cur->kmap[key] = value\<close> (line 115).
\<close>

definition fits :: "'k \<Rightarrow> nat \<Rightarrow> ('k, 'v) ExtendibleHash \<Rightarrow> bool" where
  "fits key cur t =
     (length (kmap (heap t cur)) < bucketSize t \<or> map_of (kmap (heap t cur)) key \<noteq> None)"

definition put_entry :: "'k \<Rightarrow> 'v \<Rightarrow> nat \<Rightarrow> ('k, 'v) ExtendibleHash \<Rightarrow> ('k, 'v) ExtendibleHash" where
  "put_entry key val cur t =
     t\<lparr>heap := (heap t)(cur := (heap t cur)\<lparr>kmap := AList.update key val (kmap (heap t cur))\<rparr>)\<rparr>"

text \<open>
  The \<open>for (;;)\<close> loop of \<open>Insert\<close>, with the loop variable \<open>cur\<close>; after a split, \<open>cur\<close>
  is read again from the slot of the key (lines 151 and 152). The loop has no bound,
  so the function is partial: \<open>None\<close> is a run that goes on for ever, \<open>Some (Inl e)\<close> one
  that ends in the error \<open>e\<close>, \<open>Some (Inr t)\<close> one that reaches \<open>return\<close> with the
  table \<open>t\<close>.
\<close>

partial_function (option) insert_loop ::
  "('k \<Rightarrow> nat) \<Rightarrow> 'k \<Rightarrow> 'v \<Rightarrow> nat \<Rightarrow> ('k, 'v) ExtendibleHash
     \<Rightarrow> (error + ('k, 'v) ExtendibleHash) option" where
  "insert_loop HashKey key val cur t =
     (if fits key cur t then Some (Inr (put_entry key val cur t))
      else
        (case split_bucket HashKey cur t of
           Inl e \<Rightarrow> Some (Inl e)
         | Inr t1 \<Rightarrow>
             (case getIdx HashKey key t1 of
                Inl e \<Rightarrow> Some (Inl e)
              | Inr index \<Rightarrow> insert_loop HashKey key val (buckets t1 ! index) t1)))"

declare insert_loop.simps [code]

definition Insert ::
  "('k \<Rightarrow> nat) \<Rightarrow> 'k \<Rightarrow> 'v \<Rightarrow> ('k, 'v) ExtendibleHash
     \<Rightarrow> (error + ('k, 'v) ExtendibleHash) option" where
  "Insert HashKey key val t =
     (case getIdx HashKey key t of
        Inl e \<Rightarrow> Some (Inl e)
      | Inr index \<Rightarrow> insert_loop HashKey key val (buckets t ! index) t)"

text \<open>
  A sequence of \<open>Insert\<close> calls, first pair first; it stops at the first call that does
  not return.
\<close>

fun insert_all ::
  "('k \<Rightarrow> nat) \<Rightarrow> ('k \<times> 'v) list \<Rightarrow> ('k, 'v) ExtendibleHash
     \<Rightarrow> (error + ('k, 'v) ExtendibleHash) option" where
  "insert_all HashKey [] t = Some (Inr t)"
| "insert_all HashKey ((k, v) # kvs) t =
     (case Insert HashKey k v t of
        None \<Rightarrow> None
      | Some (Inl e) \<Rightarrow> Some (Inl e)
      | Some (Inr t') \<Rightarrow> insert_all HashKey kvs t')"



text \<open>The number of directory slots that point to the bucket at address \<open>a\<close>.\<close>

definition slots_of :: "('k, 'v) ExtendibleHash \<Rightarrow> nat \<Rightarrow> nat" where
  "slots_of t a = count_list (buckets t) a"

text \<open>A key is in the table when a bucket of the directory holds it.\<close>

definition holds_key :: "('k, 'v) ExtendibleHash \<Rightarrow> 'k \<Rightarrow> bool" where
  "holds_key t key = list_ex (\<lambda>a. map_of (kmap (heap t a)) key \<noteq> None) (buckets t)"

text \<open>
  The slot of a key: the low \<open>globalDepth\<close> bits of its hash, which is what \<open>getIdx\<close>
  returns when its shift is defined (\<open>getIdx_eq\<close>).
\<close>

definition slot :: "('k \<Rightarrow> nat) \<Rightarrow> 'k \<Rightarrow> ('k, 'v) ExtendibleHash \<Rightarrow> nat" where
  "slot HashKey key t = take_bit (globalDepth t) (HashKey key)"

text \<open>
  The pass of the loop with the mask as the exact power of two: what \<open>split_bucket\<close>
  returns for a local depth below 31 (\<open>split_bucket_eq\<close>).
\<close>

definition split_exact ::
  "('k \<Rightarrow> nat) \<Rightarrow> nat \<Rightarrow> ('k, 'v) ExtendibleHash \<Rightarrow> ('k, 'v) ExtendibleHash" where
  "split_exact HashKey cur t =
     (let ld = localDepth (heap t cur) + 1 in
      rehash HashKey cur ld (2 ^ (ld - 1)) (if ld > globalDepth t then double_directory t else t))"

text \<open>
  The shape of the directory: it has \<open>2 ^ globalDepth\<close> slots, each points to an
  allocated bucket of local depth at most the global depth, and two slots point to the
  same bucket exactly when their indices agree on the low \<open>localDepth\<close> bits.
\<close>

definition dir_ok :: "('k, 'v) ExtendibleHash \<Rightarrow> bool" where
  "dir_ok t =
     (length (buckets t) = 2 ^ globalDepth t \<and>
      (\<forall>i < length (buckets t).
         buckets t ! i < heapTop t \<and>
         localDepth (heap t (buckets t ! i)) \<le> globalDepth t \<and>
         (\<forall>j < length (buckets t).
            (buckets t ! j = buckets t ! i) =
            (take_bit (localDepth (heap t (buckets t ! i))) j =
             take_bit (localDepth (heap t (buckets t ! i))) i))))"

text \<open>Every key of a bucket agrees with the slots of the bucket on the low \<open>localDepth\<close> bits.\<close>

definition keys_ok :: "('k \<Rightarrow> nat) \<Rightarrow> ('k, 'v) ExtendibleHash \<Rightarrow> bool" where
  "keys_ok HashKey t =
     (\<forall>i < length (buckets t). \<forall>kv \<in> set (kmap (heap t (buckets t ! i))).
         take_bit (localDepth (heap t (buckets t ! i))) (HashKey (fst kv)) =
         take_bit (localDepth (heap t (buckets t ! i))) i)"

text \<open>
  The entries of the bucket of \<open>key\<close> whose hash agrees with the hash of \<open>key\<close> on the low
  31 bits: the entries that no split takes away from the key in a run that returns.
\<close>

definition colliding :: "('k \<Rightarrow> nat) \<Rightarrow> 'k \<Rightarrow> ('k, 'v) ExtendibleHash \<Rightarrow> ('k \<times> 'v) list" where
  "colliding HashKey key t =
     filter (\<lambda>kv. take_bit 31 (HashKey (fst kv)) = take_bit 31 (HashKey key))
       (kmap (heap t (buckets t ! slot HashKey key t)))"

subsection \<open>\<open>buffer_pool_manager.cpp\<close>\<close>

text \<open>
  Modelled from the spec: \<open>page.h\<close> is not among the sources. A frame carries the
  current page id (\<open>INVALID_PAGE_ID\<close> when unbound), a pin count, a dirty flag and the
  byte payload; \<open>ResetMemory\<close> zeroes the payload. The pin count is a C++ \<open>int\<close>: a
  32-bit word that \<open>++\<close> and \<open>--\<close> take around the ends of its range, and that
  \<open>GetPinCount\<close> reads as a signed number. \<open>page_id_t\<close> is an \<open>int\<close> too; the manager
  only stores and compares page ids, so they are read as integers.
  \<open>INVALID_PAGE_ID\<close> is a reserved id that no allocated page has, taken as \<open>- 1\<close>.
\<close>

type_synonym page_id_t = int

definition INVALID_PAGE_ID :: page_id_t where
  "INVALID_PAGE_ID = - 1"

record Page =
  page_id :: page_id_t
  pin_count :: "32 word"
  is_dirty :: bool
  data :: "8 word list"

definition GetPinCount :: "Page \<Rightarrow> int" where
  "GetPinCount p = sint (pin_count p)"

definition ResetMemory :: "Page \<Rightarrow> Page" where
  "ResetMemory p = p\<lparr>data := replicate (length (data p)) 0\<rparr>"

text \<open>
  Modelled from the spec: the disk manager is an external collaborator whose code is not
  among the sources. It is a store of page contents with a counter for fresh page ids,
  and it records every call it receives, oldest first.
\<close>

datatype disk_call =
  CallAllocatePage | CallDeallocatePage page_id_t | CallReadPage page_id_t | CallWritePage page_id_t

record DiskManager =
  next_page_id :: page_id_t
  contents :: "page_id_t \<Rightarrow> 8 word list"
  calls :: "disk_call list"

definition AllocatePage :: "DiskManager \<Rightarrow> page_id_t \<times> DiskManager" where
  "AllocatePage d =
     (next_page_id d, d\<lparr>next_page_id := next_page_id d + 1, calls := calls d @ [CallAllocatePage]\<rparr>)"

definition DeallocatePage :: "page_id_t \<Rightarrow> DiskManager \<Rightarrow> DiskManager" where
  "DeallocatePage p d = d\<lparr>calls := calls d @ [CallDeallocatePage p]\<rparr>"

definition ReadPage :: "page_id_t \<Rightarrow> DiskManager \<Rightarrow> 8 word list \<times> DiskManager" where
  "ReadPage p d = (contents d p, d\<lparr>calls := calls d @ [CallReadPage p]\<rparr>)"

definition WritePage :: "page_id_t \<Rightarrow> 8 word list \<Rightarrow> DiskManager \<Rightarrow> DiskManager" where
  "WritePage p bytes d = d\<lparr>contents := (contents d)(p := bytes), calls := calls d @ [CallWritePage p]\<rparr>"

text \<open>
  A \<open>Page*\<close> is \<open>None\<close> for \<open>nullptr\<close> or the address of a frame; \<open>pages\<close> maps the
  address of a frame of the pool to the frame. The page table, the replacer and the
  free list hold \<open>Page*\<close> values.
\<close>

type_synonym page_ptr = "nat option"

record BufferPoolManager =
  pool_size :: nat
  pages :: "nat \<Rightarrow> Page"
  page_table :: "(page_id_t, page_ptr) ExtendibleHash"
  replacer :: "page_ptr LRUReplacer"
  free_list :: "page_ptr list"
  disk_manager :: DiskManager

text \<open>
  The constructor; \<open>bucket_size\<close> stands for the constant \<open>BUCKET_SIZE\<close>, \<open>page_bytes\<close>
  for \<open>PAGE_SIZE\<close>, both declared outside the sources.
\<close>

definition BufferPoolManager_new :: "nat \<Rightarrow> nat \<Rightarrow> nat \<Rightarrow> DiskManager \<Rightarrow> BufferPoolManager" where
  "BufferPoolManager_new bucket_size page_bytes n d =
     \<lparr>pool_size = n,
      pages = (\<lambda>a. \<lparr>page_id = INVALID_PAGE_ID, pin_count = 0, is_dirty = False,
                     data = replicate page_bytes 0\<rparr>),
      page_table = ExtendibleHash_new bucket_size,
      replacer = LRUReplacer_new,
      free_list = map Some [0 ..< n],
      disk_manager = d\<rparr>"

definition GetVictimPage :: "BufferPoolManager \<Rightarrow> error + (page_ptr \<times> BufferPoolManager)" where
  "GetVictimPage s =
     (if free_list s = [] then
        (if lru_Size (replacer s) = 0 then Inr (None, s)
         else
           (case lru_Victim None (replacer s) of
              (ok, tar, r) \<Rightarrow>
                (case tar of
                   None \<Rightarrow> Inl NullDereference
                 | Some f \<Rightarrow>
                     if GetPinCount (pages s f) = 0 then Inr (tar, s\<lparr>replacer := r\<rparr>)
                     else Inl AssertionFailed)))
      else
        (case hd (free_list s) of
           None \<Rightarrow> Inl NullDereference
         | Some f \<Rightarrow>
             if page_id (pages s f) \<noteq> INVALID_PAGE_ID then Inl AssertionFailed
             else if GetPinCount (pages s f) = 0
               then Inr (Some f, s\<lparr>free_list := tl (free_list s)\<rparr>)
               else Inl AssertionFailed))"

text \<open>
  \<open>FetchPage\<close> and \<open>NewPage\<close> call \<open>Insert\<close> of the page table, so they are \<open>None\<close> when
  that call never ends.
\<close>

definition FetchPage ::
  "(page_id_t \<Rightarrow> nat) \<Rightarrow> page_id_t \<Rightarrow> BufferPoolManager
     \<Rightarrow> (error + (page_ptr \<times> BufferPoolManager)) option" where
  "FetchPage HashKey pid s =
     (case Find HashKey pid None (page_table s) of
        Inl e \<Rightarrow> Some (Inl e)
      | Inr (True, tar) \<Rightarrow>
          (case tar of
             None \<Rightarrow> Some (Inl NullDereference)
           | Some f \<Rightarrow>
               Some (Inr (tar,
                 s\<lparr>pages := (pages s)(f := (pages s f)\<lparr>pin_count := pin_count (pages s f) + 1\<rparr>),
                   replacer := snd (lru_Erase tar (replacer s))\<rparr>)))
      | Inr (False, _) \<Rightarrow>
          (case GetVictimPage s of
             Inl e \<Rightarrow> Some (Inl e)
           | Inr (tar, s1) \<Rightarrow>
               (case tar of
                  None \<Rightarrow> Some (Inr (None, s1))
                | Some f \<Rightarrow>
                    (let old = pages s1 f;
                         d1 = (if is_dirty old then WritePage (page_id old) (data old) (disk_manager s1)
                               else disk_manager s1)
                     in case Remove HashKey (page_id old) (page_table s1) of
                          Inl e \<Rightarrow> Some (Inl e)
                        | Inr (removed, t1) \<Rightarrow>
                            (case Insert HashKey pid tar t1 of
                               None \<Rightarrow> None
                             | Some (Inl e) \<Rightarrow> Some (Inl e)
                             | Some (Inr t2) \<Rightarrow>
                                 (case ReadPage pid d1 of
                                    (bytes, d2) \<Rightarrow>
                                      Some (Inr (tar,
                                        s1\<lparr>pages := (pages s1)
                                              (f := old\<lparr>data := bytes, pin_count := 1,
                                                        is_dirty := False, page_id := pid\<rparr>),
                                           page_table := t2, disk_manager := d2\<rparr>))))))))"

definition UnpinPage ::
  "(page_id_t \<Rightarrow> nat) \<Rightarrow> page_id_t \<Rightarrow> bool \<Rightarrow> BufferPoolManager
     \<Rightarrow> error + (bool \<times> BufferPoolManager)" where
  "UnpinPage HashKey pid dirty s =
     (case Find HashKey pid None (page_table s) of
        Inl e \<Rightarrow> Inl e
      | Inr (found, tar) \<Rightarrow>
          (case tar of
             None \<Rightarrow> Inr (False, s)
           | Some f \<Rightarrow>
               (let s1 = s\<lparr>pages := (pages s)(f := (pages s f)\<lparr>is_dirty := dirty\<rparr>)\<rparr> in
                if GetPinCount (pages s1 f) \<le> 0 then Inr (False, s1)
                else
                  (let s2 = s1\<lparr>pages := (pages s1)
                                 (f := (pages s1 f)\<lparr>pin_count := pin_count (pages s1 f) - 1\<rparr>)\<rparr> in
                   if pin_count (pages s2 f) = 0
                   then Inr (True, s2\<lparr>replacer := lru_Insert (Some f) (replacer s2)\<rparr>)
                   else Inr (True, s2)))))"

definition FlushPage ::
  "(page_id_t \<Rightarrow> nat) \<Rightarrow> page_id_t \<Rightarrow> BufferPoolManager
     \<Rightarrow> error + (bool \<times> BufferPoolManager)" where
  "FlushPage HashKey pid s =
     (case Find HashKey pid None (page_table s) of
        Inl e \<Rightarrow> Inl e
      | Inr (found, tar) \<Rightarrow>
          (case tar of
             None \<Rightarrow> Inr (False, s)
           | Some f \<Rightarrow>
               if page_id (pages s f) = INVALID_PAGE_ID then Inr (False, s)
               else if is_dirty (pages s f)
                 then Inr (True, s\<lparr>disk_manager := WritePage pid (data (pages s f)) (disk_manager s),
                                    pages := (pages s)(f := (pages s f)\<lparr>is_dirty := False\<rparr>)\<rparr>)
                 else Inr (True, s)))"

definition DeletePage ::
  "(page_id_t \<Rightarrow> nat) \<Rightarrow> page_id_t \<Rightarrow> BufferPoolManager
     \<Rightarrow> error + (bool \<times> BufferPoolManager)" where
  "DeletePage HashKey pid s =
     (case Find HashKey pid None (page_table s) of
        Inl e \<Rightarrow> Inl e
      | Inr (found, tar) \<Rightarrow>
          (case tar of
             None \<Rightarrow> Inr (True, s\<lparr>disk_manager := DeallocatePage pid (disk_manager s)\<rparr>)
           | Some f \<Rightarrow>
               if GetPinCount (pages s f) > 0 then Inr (False, s)
               else
                 (case Remove HashKey pid (page_table s) of
                    Inl e \<Rightarrow> Inl e
                  | Inr (removed, t1) \<Rightarrow>
                      Inr (True,
                        s\<lparr>replacer := snd (lru_Erase (Some f) (replacer s)),
                          page_table := t1,
                          pages := (pages s)(f := ResetMemory ((pages s f)\<lparr>is_dirty := False\<rparr>)),
                          free_list := free_list s @ [Some f],
                          disk_manager := DeallocatePage pid (disk_manager s)\<rparr>))))"

text \<open>
  \<open>NewPage(page_id_t &page_id)\<close>: the result carries the content of the reference
  parameter after the call.
\<close>

definition NewPage ::
  "(page_id_t \<Rightarrow> nat) \<Rightarrow> page_id_t \<Rightarrow> BufferPoolManager
     \<Rightarrow> (error + (page_ptr \<times> page_id_t \<times> BufferPoolManager)) option" where
  "NewPage HashKey pid s =
     (case GetVictimPage s of
        Inl e \<Rightarrow> Some (Inl e)
      | Inr (tar, s1) \<Rightarrow>
          (case tar of
             None \<Rightarrow> Some (Inr (None, pid, s1))
           | Some f \<Rightarrow>
               (case AllocatePage (disk_manager s1) of
                  (pid', d0) \<Rightarrow>
                    (let old = pages s1 f;
                         d1 = (if is_dirty old then WritePage (page_id old) (data old) d0 else d0)
                     in case Remove HashKey (page_id old) (page_table s1) of
                          Inl e \<Rightarrow> Some (Inl e)
                        | Inr (removed, t1) \<Rightarrow>
                            (case Insert HashKey pid' tar t1 of
                               None \<Rightarrow> None
                             | Some (Inl e) \<Rightarrow> Some (Inl e)
                             | Some (Inr t2) \<Rightarrow>
                                 Some (Inr (tar, pid',
                                   s1\<lparr>pages := (pages s1)
                                         (f := (ResetMemory (old\<lparr>page_id := pid'\<rparr>))
                                                 \<lparr>is_dirty := False, pin_count := 1\<rparr>),
                                      page_table := t2, disk_manager := d1\<rparr>)))))))"

text \<open>\<open>std::hash\<close> of a page id as the standard libraries compute it: the value as a \<open>size_t\<close>.\<close>

definition hash_page_id :: "page_id_t \<Rightarrow> nat" where
  "hash_page_id p = nat (p mod 2 ^ 64)"


definition hash_id :: "nat \<Rightarrow> nat" where
  "hash_id k = k"

text \<open>
  A pool of one frame that holds page 5 with the given pin count and dirty flag, as
  \<open>NewPage\<close> leaves it on a fresh pool whose disk manager hands out page 5 (followed by
  calls of \<open>FetchPage\<close> and \<open>UnpinPage\<close> for the other pin counts and the dirty flag).
\<close>

definition disk_example :: DiskManager where
  "disk_example = \<lparr>next_page_id = 6, contents = (\<lambda>p. []), calls = [CallAllocatePage]\<rparr>"

definition pool_example :: "32 word \<Rightarrow> bool \<Rightarrow> BufferPoolManager" where
  "pool_example pins dirty =
     \<lparr>pool_size = 1,
      pages = (\<lambda>a. \<lparr>page_id = INVALID_PAGE_ID, pin_count = 0, is_dirty = False,
                     data = replicate 4 0\<rparr>)
                (0 := \<lparr>page_id = 5, pin_count = pins, is_dirty = dirty, data = replicate 4 0\<rparr>),
      page_table = put_entry 5 (Some 0) 0 (ExtendibleHash_new 2),
      replacer = (if pins = 0 then [Some 0] else []),
      free_list = [],
      disk_manager = disk_example\<rparr>"

text \<open>
  What the calls keep true of the chain: no value twice, every value has been
  inserted, and the values are in the order of their most recent \<open>Insert\<close>, latest
  first.
\<close>

definition lru_inv :: "'a lru_call list \<Rightarrow> 'a LRUReplacer \<Rightarrow> bool" where
  "lru_inv h r =
     (distinct r \<and> (\<forall>v \<in> set r. calls_since_insert h v \<noteq> None) \<and>
      sorted_wrt (\<lambda>a b. inserted_before h b a) r)"

text \<open>A history: \<open>Insert\<close> of 1, 2, 4, 3, then \<open>Erase\<close> of 4, then \<open>Insert\<close> of 1 again.\<close>

definition lru_history_example :: "nat lru_call list" where
  "lru_history_example =
     [CallInsert 1, CallErase 4, CallInsert 3, CallInsert 4, CallInsert 2, CallInsert 1]"

text \<open>
  A state from which the loop does not reach \<open>return\<close>: \<open>cur\<close> is the bucket of the
  key, the key is not in it, and at least \<open>bucketSize\<close> of its entries agree with the
  hash of the key on the low 31 bits.
\<close>

definition jammed :: "('k \<Rightarrow> nat) \<Rightarrow> 'k \<Rightarrow> nat \<Rightarrow> ('k, 'v) ExtendibleHash \<Rightarrow> bool" where
  "jammed H key cur t =
     (dir_ok t \<and> cur = buckets t ! slot H key t \<and> map_of (kmap (heap t cur)) key = None \<and>
      bucketSize t \<le> length (filter (\<lambda>kv. take_bit 31 (H (fst kv)) = take_bit 31 (H key))
                               (kmap (heap t cur))))"

text \<open>What can be printed of a table: its fields and the buckets at the allocated addresses.\<close>

definition shape ::
  "('k, 'v) ExtendibleHash
     \<Rightarrow> nat \<times> nat \<times> 32 word \<times> nat list \<times> nat \<times> ('k, 'v) Bucket list" where
  "shape t =
     (globalDepth t, bucketSize t, bucketNum t, buckets t, heapTop t, map (heap t) [0 ..< heapTop t])"



definition single_example :: "(page_id_t, nat) ExtendibleHash" where
  "single_example = put_entry 0 10 0 (ExtendibleHash_new 1)"

section \<open>Properties\<close>

subsection \<open>Shifts and slots\<close>

lemma slot_less: "slot H key t < 2 ^ globalDepth t"
  by (simp add: slot_def)

lemma less_32_cases:
  assumes "g < (32::nat)"
  shows "g \<in> {0, 1, 2, 3, 4, 5, 6, 7, 8, 9, 10, 11, 12, 13, 14, 15, 16, 17, 18, 19, 20,
    21, 22, 23, 24, 25, 26, 27, 28, 29, 30, 31}"
  using assms by simp presburger

lemma to_size_t_mask:
  assumes "g < 32"
  shows "to_size_t (2 ^ g - 1) = 2 ^ g - 1"
  using less_32_cases [OF assms] by (auto simp add: to_size_t_def)

lemma to_size_t_bit:
  assumes "l < 31"
  shows "to_size_t (2 ^ l) = 2 ^ l"
proof -
  from assms have "l < 32" "l \<noteq> 31" by simp_all
  with less_32_cases [of l] show ?thesis by (auto simp add: to_size_t_def)
qed

lemma getIdx_eq:
  "getIdx H key t = (if globalDepth t < 32 then Inr (slot H key t) else Inl UndefinedShift)"
  by (simp add: getIdx_def shl_int_def slot_def to_size_t_mask take_bit_eq_mask
      mask_eq_exp_minus_1)

lemma redistribute_eq:
  "l < 31 \<Longrightarrow> redistribute H cur (Suc l) t = Inr (rehash H cur (Suc l) (2 ^ l) t)"
  by (simp add: redistribute_def shl_int_def to_size_t_bit)

lemma redistribute_undefined:
  "32 \<le> l \<Longrightarrow> redistribute H cur (Suc l) t = Inl UndefinedShift"
  by (simp add: redistribute_def shl_int_def)

lemma redistribute_globalDepth:
  "redistribute H cur ld t = Inr t1 \<Longrightarrow> globalDepth t1 = globalDepth t"
  by (auto simp add: redistribute_def rehash_def Let_def split: sum.splits)

lemma split_bucket_eq:
  "localDepth (heap t cur) < 31 \<Longrightarrow> split_bucket H cur t = Inr (split_exact H cur t)"
  by (simp add: split_bucket_def split_exact_def Let_def redistribute_eq)

lemma split_bucket_undefined:
  "32 \<le> localDepth (heap t cur) \<Longrightarrow> split_bucket H cur t = Inl UndefinedShift"
  by (simp add: split_bucket_def Let_def redistribute_undefined)

lemma split_bucket_globalDepth:
  assumes "split_bucket H cur t = Inr t1"
  shows "globalDepth t1 =
    (if globalDepth t < Suc (localDepth (heap t cur)) then Suc (globalDepth t) else globalDepth t)"
  using assms
  by (auto simp add: split_bucket_def Let_def double_directory_def
      dest!: redistribute_globalDepth split: if_splits)

lemma split_bucket_error:
  "split_bucket H cur t = Inl e \<Longrightarrow> e = UndefinedShift"
  by (auto simp add: split_bucket_def Let_def redistribute_def shl_int_def split: if_splits)

lemma split_bucket_exact:
  assumes "split_bucket H cur t = Inr t1" and "globalDepth t1 < 32"
    and "localDepth (heap t cur) \<le> globalDepth t"
  shows "localDepth (heap t cur) < 31 \<and> t1 = split_exact H cur t"
proof -
  from split_bucket_globalDepth [OF assms(1)] assms(2,3)
  have l: "localDepth (heap t cur) < 31" by (simp split: if_splits)
  with assms(1) show ?thesis by (simp add: split_bucket_eq)
qed

subsection \<open>Bits of slot indices and hashes\<close>

lemma take_bit_Suc_eq_iff:
  "(take_bit (Suc l) (j::nat) = take_bit (Suc l) i) = (take_bit l j = take_bit l i \<and> bit j l = bit i l)"
proof -
  define a b where "a = take_bit l j" and "b = take_bit l i"
  have "a < 2 ^ l" "b < 2 ^ l" by (simp_all add: a_def b_def)
  then have "(2 ^ l * of_bool (bit j l) + a = 2 ^ l * of_bool (bit i l) + b) = (a = b \<and> bit j l = bit i l)"
    by (cases "bit j l"; cases "bit i l") auto
  then show ?thesis
    unfolding take_bit_Suc_from_most [of l j] take_bit_Suc_from_most [of l i] a_def b_def .
qed

lemma nth_double:
  assumes "j < 2 * length xs"
  shows "(xs @ xs) ! j = xs ! (j mod length xs)"
proof (cases "j < length xs")
  case True
  then show ?thesis by (simp add: nth_append)
next
  case False
  then have "j mod length xs = j - length xs"
    using assms by (simp add: mod_if)
  with False show ?thesis by (simp add: nth_append)
qed

lemma card_residue_class:
  assumes "l \<le> g" and r: "r < 2 ^ l"
  shows "card {j::nat. j < 2 ^ g \<and> j mod 2 ^ l = r} = 2 ^ (g - l)"
proof -
  have g: "(2::nat) ^ g = 2 ^ (g - l) * 2 ^ l" using assms(1) by (simp flip: power_add)
  have "{j. j < 2 ^ g \<and> j mod 2 ^ l = r} = (\<lambda>q. q * 2 ^ l + r) ` {..< 2 ^ (g - l)}"
  proof (intro equalityI subsetI)
    fix j assume "j \<in> {j. j < 2 ^ g \<and> j mod 2 ^ l = r}"
    then have j: "j < 2 ^ g" "j mod 2 ^ l = r" by simp_all
    from j(1) g have "j div 2 ^ l < 2 ^ (g - l)" by (simp add: less_mult_imp_div_less)
    moreover have "j = (j div 2 ^ l) * 2 ^ l + r" using j(2) by (metis div_mult_mod_eq)
    ultimately show "j \<in> (\<lambda>q. q * 2 ^ l + r) ` {..< 2 ^ (g - l)}" by blast
  next
    fix j assume "j \<in> (\<lambda>q. q * 2 ^ l + r) ` {..< 2 ^ (g - l)}"
    then obtain q where q: "q < 2 ^ (g - l)" "j = q * 2 ^ l + r" by blast
    have "q * 2 ^ l + r < (q + 1) * 2 ^ l" using r by simp
    moreover have "(q + 1) * 2 ^ l \<le> 2 ^ (g - l) * (2::nat) ^ l" using q(1) by (intro mult_le_mono1) simp
    ultimately have "j < 2 ^ g" using q(2) g by linarith
    moreover have "j mod 2 ^ l = r" using q(2) r by simp
    ultimately show "j \<in> {j. j < 2 ^ g \<and> j mod 2 ^ l = r}" by simp
  qed
  moreover have "inj_on (\<lambda>q. q * 2 ^ l + r) {..< 2 ^ (g - l)}"
    by (rule inj_onI) simp
  ultimately show ?thesis by (simp add: card_image)
qed

lemma card_take_bit_class:
  assumes "l \<le> g"
  shows "card {j. j < 2 ^ g \<and> take_bit l j = take_bit l (i::nat)} = 2 ^ (g - l)"
  using card_residue_class [OF assms, of "take_bit l i"] by (simp add: take_bit_eq_mod)

lemma take_bit_take_bit_le: "m \<le> g \<Longrightarrow> take_bit m (take_bit g (j::nat)) = take_bit m j"
  by (simp add: min_def)

subsection \<open>The directory keeps its shape\<close>

lemma dir_okD:
  assumes "dir_ok t" and "i < length (buckets t)"
  shows "buckets t ! i < heapTop t"
    and "localDepth (heap t (buckets t ! i)) \<le> globalDepth t"
    and "j < length (buckets t) \<Longrightarrow>
           (buckets t ! j = buckets t ! i) =
           (take_bit (localDepth (heap t (buckets t ! i))) j =
            take_bit (localDepth (heap t (buckets t ! i))) i)"
  using assms unfolding dir_ok_def by blast+

lemma dir_ok_length: "dir_ok t \<Longrightarrow> length (buckets t) = 2 ^ globalDepth t"
  by (simp add: dir_ok_def)

lemma double_directory_nth:
  assumes "length (buckets t) = 2 ^ globalDepth t" and "j < 2 * 2 ^ globalDepth t"
  shows "buckets (double_directory t) ! j = buckets t ! take_bit (globalDepth t) j"
  using assms nth_double [of j "buckets t"]
  by (simp add: double_directory_def take_bit_eq_mod)

lemma dir_ok_double:
  assumes "dir_ok t"
  shows "dir_ok (double_directory t)"
proof -
  let ?g = "globalDepth t"
  let ?d = "double_directory t"
  have len: "length (buckets t) = 2 ^ ?g" using assms by (rule dir_ok_length)
  have len': "length (buckets ?d) = 2 ^ globalDepth ?d"
    using len by (simp add: double_directory_def)
  have gd: "globalDepth ?d = ?g + 1" and hp: "heap ?d = heap t" "heapTop ?d = heapTop t"
    by (simp_all add: double_directory_def)
  have "buckets ?d ! i < heapTop ?d \<and>
        localDepth (heap ?d (buckets ?d ! i)) \<le> globalDepth ?d \<and>
        (\<forall>j < length (buckets ?d).
            (buckets ?d ! j = buckets ?d ! i) =
            (take_bit (localDepth (heap ?d (buckets ?d ! i))) j =
             take_bit (localDepth (heap ?d (buckets ?d ! i))) i))"
    if i: "i < length (buckets ?d)" for i
  proof -
    have i2: "i < 2 * 2 ^ ?g" using i len' gd by simp
    have ti: "take_bit ?g i < length (buckets t)" using len by simp
    have ei: "buckets ?d ! i = buckets t ! take_bit ?g i"
      using len i2 by (rule double_directory_nth)
    let ?a = "buckets t ! take_bit ?g i"
    let ?l = "localDepth (heap t ?a)"
    have l: "?l \<le> ?g" using dir_okD(2) [OF assms ti] .
    have "(buckets ?d ! j = ?a) = (take_bit ?l j = take_bit ?l i)" if j: "j < length (buckets ?d)" for j
    proof -
      have j2: "j < 2 * 2 ^ ?g" using j len' gd by simp
      have tj: "take_bit ?g j < length (buckets t)" using len by simp
      have "buckets ?d ! j = buckets t ! take_bit ?g j"
        using len j2 by (rule double_directory_nth)
      then show ?thesis
        using dir_okD(3) [OF assms ti tj] l by (simp add: take_bit_take_bit_le)
    qed
    then show ?thesis
      using dir_okD(1) [OF assms ti] l unfolding ei hp gd by simp
  qed
  with len' show ?thesis unfolding dir_ok_def by blast
qed

lemma and_exp_pos: "(0 < and (j::nat) (2 ^ l)) = bit j l"
  using and_exp_eq_0_iff_not_bit [of j l] by auto

lemmas and_exp_bit' = and_exp_pos and_exp_eq_0_iff_not_bit

lemma rehash_simps:
  "globalDepth (rehash H cur ld msk t) = globalDepth t"
  "bucketSize (rehash H cur ld msk t) = bucketSize t"
  "length (buckets (rehash H cur ld msk t)) = length (buckets t)"
  "heapTop (rehash H cur ld msk t) = heapTop t + 1"
  by (simp_all add: rehash_def Let_def)

lemma rehash_nth:
  "j < length (buckets t) \<Longrightarrow>
   buckets (rehash H cur (Suc l) (2 ^ l) t) ! j =
     (if buckets t ! j = cur \<and> bit j l then heapTop t else buckets t ! j)"
  by (auto simp add: rehash_def Let_def and_exp_bit')

lemma rehash_heap_cur:
  "cur \<noteq> heapTop t \<Longrightarrow>
   heap (rehash H cur (Suc l) (2 ^ l) t) cur =
     \<lparr>localDepth = Suc l, kmap = filter (\<lambda>kv. \<not> bit (H (fst kv)) l) (kmap (heap t cur))\<rparr>"
  by (auto simp add: rehash_def Let_def and_exp_bit')

lemma rehash_heap_new:
  "heap (rehash H cur (Suc l) (2 ^ l) t) (heapTop t) =
     \<lparr>localDepth = Suc l, kmap = filter (\<lambda>kv. bit (H (fst kv)) l) (kmap (heap t cur))\<rparr>"
  by (auto simp add: rehash_def Let_def and_exp_bit')

lemma rehash_heap_other:
  "a \<noteq> cur \<Longrightarrow> a \<noteq> heapTop t \<Longrightarrow> heap (rehash H cur ld msk t) a = heap t a"
  by (simp add: rehash_def Let_def)

lemma dir_ok_rehash:
  assumes ok: "dir_ok t" and i0: "i0 < length (buckets t)" and cur: "cur = buckets t ! i0"
    and l: "l = localDepth (heap t cur)" and lg: "l < globalDepth t"
  shows "dir_ok (rehash H cur (Suc l) (2 ^ l) t)"
proof -
  let ?r = "rehash H cur (Suc l) (2 ^ l) t"
  let ?n = "heapTop t"
  have cn: "cur < ?n" using dir_okD(1) [OF ok i0] cur by simp
  have len: "length (buckets ?r) = 2 ^ globalDepth ?r"
    using dir_ok_length [OF ok] by (simp add: rehash_simps)
  have "buckets ?r ! i < heapTop ?r \<and>
        localDepth (heap ?r (buckets ?r ! i)) \<le> globalDepth ?r \<and>
        (\<forall>j < length (buckets ?r).
            (buckets ?r ! j = buckets ?r ! i) =
            (take_bit (localDepth (heap ?r (buckets ?r ! i))) j =
             take_bit (localDepth (heap ?r (buckets ?r ! i))) i))"
    if "i < length (buckets ?r)" for i
  proof -
    have i: "i < length (buckets t)" using that by (simp add: rehash_simps)
    have ai: "buckets t ! i < ?n" using dir_okD(1) [OF ok i] .
    have same: "(buckets t ! j = cur) = (take_bit l j = take_bit l i0)" if "j < length (buckets t)" for j
      using dir_okD(3) [OF ok i0 that] cur l by simp
    consider (new) "buckets t ! i = cur" "bit i l"
      | (old) "buckets t ! i = cur" "\<not> bit i l"
      | (other) "buckets t ! i \<noteq> cur" by blast
    then show ?thesis
    proof cases
      case new
      have ei: "buckets ?r ! i = ?n" using new i by (simp add: rehash_nth)
      have "(buckets ?r ! j = ?n) = (take_bit (Suc l) j = take_bit (Suc l) i)"
        if j: "j < length (buckets t)" for j
        using same [OF j] same [OF i] new dir_okD(1) [OF ok j] cn
        by (auto simp: rehash_nth [OF j] take_bit_Suc_eq_iff)
      then show ?thesis
        using lg unfolding ei by (simp add: rehash_simps rehash_heap_new)
    next
      case old
      have ei: "buckets ?r ! i = cur" using old i by (simp add: rehash_nth)
      have "(buckets ?r ! j = cur) = (take_bit (Suc l) j = take_bit (Suc l) i)"
        if j: "j < length (buckets t)" for j
        using same [OF j] same [OF i] old dir_okD(1) [OF ok j] cn
        by (auto simp: rehash_nth [OF j] take_bit_Suc_eq_iff)
      then show ?thesis
        using lg cn unfolding ei by (simp add: rehash_simps rehash_heap_cur)
    next
      case other
      let ?a = "buckets t ! i"
      have ei: "buckets ?r ! i = ?a" using other i by (simp add: rehash_nth)
      have hp: "heap ?r ?a = heap t ?a"
        using other ai by (simp add: rehash_heap_other)
      have "(buckets ?r ! j = ?a) = (buckets t ! j = ?a)" if j: "j < length (buckets t)" for j
        using other ai by (auto simp: rehash_nth [OF j])
      then show ?thesis
        using dir_okD [OF ok i] ai unfolding ei hp by (simp add: rehash_simps)
    qed
  qed
  with len show ?thesis unfolding dir_ok_def by blast
qed

lemma dir_ok_split:
  assumes ok: "dir_ok t" and i0: "i0 < length (buckets t)" and cur: "cur = buckets t ! i0"
  shows "dir_ok (split_exact H cur t)"
proof -
  let ?l = "localDepth (heap t cur)"
  have l: "?l \<le> globalDepth t" using dir_okD(2) [OF ok i0] cur by simp
  show ?thesis
  proof (cases "?l + 1 > globalDepth t")
    case True
    let ?d = "double_directory t"
    have "dir_ok ?d" using ok by (rule dir_ok_double)
    moreover have "i0 < length (buckets ?d)" using i0 by (simp add: double_directory_def)
    moreover have "cur = buckets ?d ! i0" using i0 cur by (simp add: double_directory_def nth_append)
    moreover have "?l = localDepth (heap ?d cur)" by (simp add: double_directory_def)
    moreover have "?l < globalDepth ?d" using l by (simp add: double_directory_def)
    ultimately have "dir_ok (rehash H cur (Suc ?l) (2 ^ ?l) ?d)" by (rule dir_ok_rehash)
    with True show ?thesis by (simp add: split_exact_def)
  next
    case False
    then have "?l < globalDepth t" by simp
    with dir_ok_rehash [OF ok i0 cur refl] have "dir_ok (rehash H cur (Suc ?l) (2 ^ ?l) t)"
      by simp
    with False show ?thesis by (simp add: split_exact_def)
  qed
qed

lemma put_entry_simps:
  "globalDepth (put_entry key val cur t) = globalDepth t"
  "bucketSize (put_entry key val cur t) = bucketSize t"
  "buckets (put_entry key val cur t) = buckets t"
  "heapTop (put_entry key val cur t) = heapTop t"
  "localDepth (heap (put_entry key val cur t) a) = localDepth (heap t a)"
  by (simp_all add: put_entry_def)

lemma dir_ok_put_entry: "dir_ok t \<Longrightarrow> dir_ok (put_entry key val cur t)"
  unfolding dir_ok_def put_entry_simps .

lemma dir_ok_new: "dir_ok (ExtendibleHash_new sz)"
  by (simp add: dir_ok_def ExtendibleHash_new_def Bucket_new_def)

lemma slots_of_dir_ok:
  assumes ok: "dir_ok t" and a: "a \<in> set (buckets t)"
  shows "localDepth (heap t a) \<le> globalDepth t"
    and "slots_of t a = 2 ^ (globalDepth t - localDepth (heap t a))"
proof -
  from a obtain i where i: "i < length (buckets t)" "a = buckets t ! i"
    by (auto simp: in_set_conv_nth)
  let ?l = "localDepth (heap t a)"
  show l: "?l \<le> globalDepth t" using dir_okD(2) [OF ok i(1)] i(2) by simp
  have "slots_of t a = card {j. j < length (buckets t) \<and> a = buckets t ! j}"
    by (simp add: slots_of_def count_list_eq_length_filter length_filter_conv_card)
  also have "{j. j < length (buckets t) \<and> a = buckets t ! j}
             = {j. j < 2 ^ globalDepth t \<and> take_bit ?l j = take_bit ?l i}"
  proof -
    have "(a = buckets t ! j) = (take_bit ?l j = take_bit ?l i)" if "j < length (buckets t)" for j
      using dir_okD(3) [OF ok i(1) that] unfolding i(2) by auto
    then show ?thesis unfolding dir_ok_length [OF ok, symmetric] by blast
  qed
  also have "card \<dots> = 2 ^ (globalDepth t - ?l)"
    using l by (rule card_take_bit_class)
  finally show "slots_of t a = 2 ^ (globalDepth t - ?l)" .
qed

subsection \<open>The keys stay with their slots\<close>

lemma keys_okD:
  assumes "keys_ok H t" and "i < length (buckets t)" and "kv \<in> set (kmap (heap t (buckets t ! i)))"
  shows "take_bit (localDepth (heap t (buckets t ! i))) (H (fst kv)) =
         take_bit (localDepth (heap t (buckets t ! i))) i"
  using assms unfolding keys_ok_def by blast

lemma keys_ok_double:
  assumes ok: "dir_ok t" and ks: "keys_ok H t"
  shows "keys_ok H (double_directory t)"
proof -
  let ?g = "globalDepth t"
  let ?d = "double_directory t"
  have len: "length (buckets t) = 2 ^ ?g" using ok by (rule dir_ok_length)
  have hp: "heap ?d = heap t" by (simp add: double_directory_def)
  have "take_bit (localDepth (heap ?d (buckets ?d ! i))) (H (fst kv)) =
        take_bit (localDepth (heap ?d (buckets ?d ! i))) i"
    if i: "i < length (buckets ?d)" and kv: "kv \<in> set (kmap (heap ?d (buckets ?d ! i)))" for i kv
  proof -
    have i2: "i < 2 * 2 ^ ?g" using i len by (simp add: double_directory_def)
    have ti: "take_bit ?g i < length (buckets t)" using len by simp
    have ei: "buckets ?d ! i = buckets t ! take_bit ?g i"
      using len i2 by (rule double_directory_nth)
    have "localDepth (heap t (buckets t ! take_bit ?g i)) \<le> ?g"
      using dir_okD(2) [OF ok ti] .
    then show ?thesis
      using keys_okD [OF ks ti, of kv] kv unfolding ei hp by (simp add: take_bit_take_bit_le)
  qed
  then show ?thesis unfolding keys_ok_def by blast
qed

lemma keys_ok_rehash:
  assumes ok: "dir_ok t" and ks: "keys_ok H t"
    and i0: "i0 < length (buckets t)" and cur: "cur = buckets t ! i0"
    and l: "l = localDepth (heap t cur)"
  shows "keys_ok H (rehash H cur (Suc l) (2 ^ l) t)"
proof -
  let ?r = "rehash H cur (Suc l) (2 ^ l) t"
  let ?n = "heapTop t"
  have cn: "cur \<noteq> ?n" using dir_okD(1) [OF ok i0] cur by simp
  have "take_bit (localDepth (heap ?r (buckets ?r ! i))) (H (fst kv)) =
        take_bit (localDepth (heap ?r (buckets ?r ! i))) i"
    if "i < length (buckets ?r)" and kv: "kv \<in> set (kmap (heap ?r (buckets ?r ! i)))" for i kv
  proof -
    have i: "i < length (buckets t)" using that(1) by (simp add: rehash_simps)
    have ai: "buckets t ! i \<noteq> ?n" using dir_okD(1) [OF ok i] by simp
    consider (new) "buckets t ! i = cur" "bit i l"
      | (old) "buckets t ! i = cur" "\<not> bit i l"
      | (other) "buckets t ! i \<noteq> cur" by blast
    then show ?thesis
    proof cases
      case new
      have ei: "buckets ?r ! i = ?n" using new i by (simp add: rehash_nth)
      from kv have "kv \<in> set (kmap (heap t cur))" "bit (H (fst kv)) l"
        unfolding ei by (simp_all add: rehash_heap_new)
      with keys_okD [OF ks i, of kv] new l show ?thesis
        unfolding ei by (simp add: rehash_heap_new take_bit_Suc_eq_iff)
    next
      case old
      have ei: "buckets ?r ! i = cur" using old i by (simp add: rehash_nth)
      from kv have "kv \<in> set (kmap (heap t cur))" "\<not> bit (H (fst kv)) l"
        unfolding ei using cn by (simp_all add: rehash_heap_cur)
      with keys_okD [OF ks i, of kv] old l cn show ?thesis
        unfolding ei by (simp add: rehash_heap_cur take_bit_Suc_eq_iff)
    next
      case other
      have ei: "buckets ?r ! i = buckets t ! i" using other i by (simp add: rehash_nth)
      have hp: "heap ?r (buckets t ! i) = heap t (buckets t ! i)"
        using other ai by (simp add: rehash_heap_other)
      from keys_okD [OF ks i, of kv] kv show ?thesis unfolding ei hp by simp
    qed
  qed
  then show ?thesis unfolding keys_ok_def by blast
qed

lemma keys_ok_split:
  assumes ok: "dir_ok t" and ks: "keys_ok H t"
    and i0: "i0 < length (buckets t)" and cur: "cur = buckets t ! i0"
  shows "keys_ok H (split_exact H cur t)"
proof -
  let ?l = "localDepth (heap t cur)"
  show ?thesis
  proof (cases "?l + 1 > globalDepth t")
    case True
    let ?d = "double_directory t"
    have "dir_ok ?d" using ok by (rule dir_ok_double)
    moreover have "keys_ok H ?d" using ok ks by (rule keys_ok_double)
    moreover have "i0 < length (buckets ?d)" using i0 by (simp add: double_directory_def)
    moreover have "cur = buckets ?d ! i0" using i0 cur by (simp add: double_directory_def nth_append)
    moreover have "?l = localDepth (heap ?d cur)" by (simp add: double_directory_def)
    ultimately have "keys_ok H (rehash H cur (Suc ?l) (2 ^ ?l) ?d)" by (rule keys_ok_rehash)
    with True show ?thesis by (simp add: split_exact_def)
  next
    case False
    with keys_ok_rehash [OF ok ks i0 cur refl] show ?thesis
      by (simp add: split_exact_def)
  qed
qed

lemma set_AList_update: "x \<in> set (AList.update k v al) \<Longrightarrow> x = (k, v) \<or> x \<in> set al"
  by (induction al) (auto split: if_splits)

lemma target_slots_agree:
  assumes ok: "dir_ok t" and i: "i < length (buckets t)"
    and same: "buckets t ! i = buckets t ! slot H key t"
  shows "take_bit (localDepth (heap t (buckets t ! i))) (H key) =
         take_bit (localDepth (heap t (buckets t ! i))) i"
proof -
  let ?i0 = "slot H key t"
  let ?l = "localDepth (heap t (buckets t ! i))"
  have i0: "?i0 < length (buckets t)"
    using slot_less [of H key t] dir_ok_length [OF ok] by simp
  have "take_bit ?l ?i0 = take_bit ?l i"
    using dir_okD(3) [OF ok i i0] same by simp
  moreover have "?l \<le> globalDepth t" using dir_okD(2) [OF ok i] .
  ultimately show ?thesis by (simp add: slot_def take_bit_take_bit_le)
qed

lemma keys_ok_put_entry:
  assumes ok: "dir_ok t" and ks: "keys_ok H t" and cur: "cur = buckets t ! slot H key t"
  shows "keys_ok H (put_entry key val cur t)"
proof -
  let ?p = "put_entry key val cur t"
  have "take_bit (localDepth (heap ?p (buckets ?p ! i))) (H (fst kv)) =
        take_bit (localDepth (heap ?p (buckets ?p ! i))) i"
    if "i < length (buckets ?p)" and kv: "kv \<in> set (kmap (heap ?p (buckets ?p ! i)))" for i kv
  proof -
    have i: "i < length (buckets t)" using that(1) by (simp add: put_entry_simps)
    show ?thesis
    proof (cases "buckets t ! i = cur")
      case True
      from kv have "kv = (key, val) \<or> kv \<in> set (kmap (heap t (buckets t ! i)))"
        using True by (auto simp: put_entry_def dest: set_AList_update)
      then show ?thesis
        using keys_okD [OF ks i, of kv] target_slots_agree [OF ok i, of H key] True cur
        by (auto simp: put_entry_simps)
    next
      case False
      then have "kmap (heap ?p (buckets ?p ! i)) = kmap (heap t (buckets t ! i))"
        by (simp add: put_entry_def)
      with keys_okD [OF ks i, of kv] kv show ?thesis by (simp add: put_entry_simps)
    qed
  qed
  then show ?thesis unfolding keys_ok_def by blast
qed

lemma keys_ok_new: "keys_ok H (ExtendibleHash_new sz)"
  by (simp add: keys_ok_def ExtendibleHash_new_def Bucket_new_def)

subsection \<open>The loop of \<open>Insert\<close>\<close>

lemma split_exact_bucketSize: "bucketSize (split_exact H cur t) = bucketSize t"
  by (simp add: split_exact_def Let_def rehash_simps double_directory_def)

text \<open>The bucket of the key after a split.\<close>

lemma target_after_rehash:
  assumes ok: "dir_ok t" and cur: "cur = buckets t ! slot H key t"
    and l: "l = localDepth (heap t cur)" and lg: "l < globalDepth t"
  shows "heap (rehash H cur (Suc l) (2 ^ l) t)
           (buckets (rehash H cur (Suc l) (2 ^ l) t) ! slot H key (rehash H cur (Suc l) (2 ^ l) t))
         = \<lparr>localDepth = Suc l,
            kmap = filter (\<lambda>kv. bit (H (fst kv)) l = bit (H key) l) (kmap (heap t cur))\<rparr>"
proof -
  let ?r = "rehash H cur (Suc l) (2 ^ l) t"
  let ?i = "slot H key t"
  have i: "?i < length (buckets t)"
    using slot_less [of H key t] dir_ok_length [OF ok] by simp
  have cn: "cur \<noteq> heapTop t" using dir_okD(1) [OF ok i] cur by simp
  have idx: "slot H key ?r = ?i" by (simp add: slot_def rehash_simps)
  have b: "bit ?i l = bit (H key) l" using lg by (simp add: slot_def bit_take_bit_iff)
  show ?thesis
  proof (cases "bit (H key) l")
    case True
    then have "buckets ?r ! ?i = heapTop t" using b cur i by (simp add: rehash_nth)
    then show ?thesis using True unfolding idx by (simp add: rehash_heap_new)
  next
    case False
    then have "buckets ?r ! ?i = cur" using b cur i by (simp add: rehash_nth)
    then show ?thesis using False cn unfolding idx by (simp add: rehash_heap_cur)
  qed
qed

lemma target_after_split:
  assumes ok: "dir_ok t" and cur: "cur = buckets t ! slot H key t"
  shows "heap (split_exact H cur t)
           (buckets (split_exact H cur t) ! slot H key (split_exact H cur t))
         = \<lparr>localDepth = Suc (localDepth (heap t cur)),
            kmap = filter (\<lambda>kv. bit (H (fst kv)) (localDepth (heap t cur))
                                 = bit (H key) (localDepth (heap t cur))) (kmap (heap t cur))\<rparr>"
proof -
  let ?l = "localDepth (heap t cur)"
  let ?i = "slot H key t"
  have i: "?i < length (buckets t)"
    using slot_less [of H key t] dir_ok_length [OF ok] by simp
  have l: "?l \<le> globalDepth t" using dir_okD(2) [OF ok i] cur by simp
  show ?thesis
  proof (cases "?l + 1 > globalDepth t")
    case True
    let ?d = "double_directory t"
    have okd: "dir_ok ?d" using ok by (rule dir_ok_double)
    have "slot H key ?d < 2 * 2 ^ globalDepth t"
      using slot_less [of H key ?d] by (simp add: double_directory_def)
    from double_directory_nth [OF dir_ok_length [OF ok] this]
    have "buckets ?d ! slot H key ?d = buckets t ! take_bit (globalDepth t) (slot H key ?d)" .
    also have "take_bit (globalDepth t) (slot H key ?d) = ?i"
      by (simp add: slot_def double_directory_def min_def)
    finally have c: "cur = buckets ?d ! slot H key ?d" using cur by simp
    have "?l = localDepth (heap ?d cur)" "?l < globalDepth ?d"
      using l by (simp_all add: double_directory_def)
    from target_after_rehash [OF okd c this] True show ?thesis
      by (simp add: split_exact_def double_directory_def)
  next
    case False
    then have "?l < globalDepth t" by simp
    from target_after_rehash [OF ok cur refl this] False show ?thesis
      by (simp add: split_exact_def)
  qed
qed

lemma filter_filter_imp: "(\<And>x. P x \<Longrightarrow> Q x) \<Longrightarrow> filter P (filter Q xs) = filter P xs"
  by (induction xs) auto

lemma split_exact_globalDepth:
  "globalDepth (split_exact H cur t) =
     (if localDepth (heap t cur) + 1 > globalDepth t then globalDepth t + 1 else globalDepth t)"
  by (simp add: split_exact_def Let_def rehash_simps double_directory_def)

text \<open>
  Partial correctness of the loop: a property \<open>I\<close> of \<open>cur\<close> and the table that every
  pass of the loop that goes on keeps holds when the loop leaves through \<open>return\<close>.
\<close>

lemma insert_loop_rule_any:
  assumes run: "insert_loop H key val cur t = Some (Inr t')"
    and init: "I cur t"
    and step: "\<And>cur t t1. I cur t \<Longrightarrow> \<not> fits key cur t \<Longrightarrow> split_bucket H cur t = Inr t1 \<Longrightarrow>
                 globalDepth t1 < 32 \<Longrightarrow> I (buckets t1 ! slot H key t1) t1"
    and final: "\<And>cur t. I cur t \<Longrightarrow> fits key cur t \<Longrightarrow> Q (put_entry key val cur t)"
  shows "Q t'"
proof -
  have "insert_loop H0 key0 val0 cur t = Some r \<Longrightarrow>
        H0 = H \<and> key0 = key \<and> val0 = val \<and> r = Inr t' \<and> I cur t \<longrightarrow> Q t'" for H0 key0 val0 r
  proof (rule insert_loop.raw_induct
      [where P = "\<lambda>H0 key0 val0 cur t r.
                    H0 = H \<and> key0 = key \<and> val0 = val \<and> r = Inr t' \<and> I cur t \<longrightarrow> Q t'"])
    fix f H0 key0 val0 cur t r
    assume ih: "\<And>H0 key0 val0 cur t r. f H0 key0 val0 cur t = Some r \<Longrightarrow>
                  H0 = H \<and> key0 = key \<and> val0 = val \<and> r = Inr t' \<and> I cur t \<longrightarrow> Q t'"
      and eq: "(if fits key0 cur t then Some (Inr (put_entry key0 val0 cur t))
                else case split_bucket H0 cur t of
                       Inl e \<Rightarrow> Some (Inl e)
                     | Inr t1 \<Rightarrow>
                         (case getIdx H0 key0 t1 of
                            Inl e \<Rightarrow> Some (Inl e)
                          | Inr index \<Rightarrow> f H0 key0 val0 (buckets t1 ! index) t1)) = Some r"
    show "H0 = H \<and> key0 = key \<and> val0 = val \<and> r = Inr t' \<and> I cur t \<longrightarrow> Q t'"
    proof (intro impI, elim conjE)
      assume a: "H0 = H" "key0 = key" "val0 = val" "r = Inr t'" "I cur t"
      show "Q t'"
      proof (cases "fits key cur t")
        case True
        with eq a have "t' = put_entry key val cur t" by simp
        with final [OF a(5) True] show ?thesis by simp
      next
        case False
        from eq a False obtain t1 where s: "split_bucket H cur t = Inr t1"
          by (cases "split_bucket H cur t") simp_all
        with eq a False have g: "globalDepth t1 < 32"
          by (auto simp: getIdx_eq split: if_splits)
        with eq a False s have "f H key val (buckets t1 ! slot H key t1) t1 = Some (Inr t')"
          by (simp add: getIdx_eq)
        from ih [OF this] step [OF a(5) False s g] show ?thesis by simp
      qed
    qed
  qed
  with run init show ?thesis by blast
qed

text \<open>
  The same for a property of well-formed states, where the local depth of \<open>cur\<close> is at
  most the global depth: there a pass that goes on is a split with the exact mask.
\<close>

lemma insert_loop_rule:
  assumes run: "insert_loop H key val cur t = Some (Inr t')"
    and init: "I cur t"
    and bound: "\<And>cur t. I cur t \<Longrightarrow> localDepth (heap t cur) \<le> globalDepth t"
    and step: "\<And>cur t. I cur t \<Longrightarrow> \<not> fits key cur t \<Longrightarrow> localDepth (heap t cur) < 31 \<Longrightarrow>
                 globalDepth (split_exact H cur t) < 32 \<Longrightarrow>
                 I (buckets (split_exact H cur t) ! slot H key (split_exact H cur t))
                   (split_exact H cur t)"
    and final: "\<And>cur t. I cur t \<Longrightarrow> fits key cur t \<Longrightarrow> Q (put_entry key val cur t)"
  shows "Q t'"
proof (rule insert_loop_rule_any [where I = I, OF run init])
  fix cur t t1
  assume i: "I cur t" and nf: "\<not> fits key cur t" and s: "split_bucket H cur t = Inr t1"
    and g: "globalDepth t1 < 32"
  from split_bucket_exact [OF s g bound [OF i]]
  have l: "localDepth (heap t cur) < 31" and t1: "t1 = split_exact H cur t" by simp_all
  from step [OF i nf l] g show "I (buckets t1 ! slot H key t1) t1" by (simp add: t1)
next
  fix cur t
  assume "I cur t" and "fits key cur t"
  then show "Q (put_entry key val cur t)" by (rule final)
qed

text \<open>The only error of the loop is the undefined shift.\<close>

lemma insert_loop_error:
  assumes "insert_loop H key val cur t = Some (Inl e)"
  shows "e = UndefinedShift"
proof -
  have "insert_loop H key val cur t = Some r \<Longrightarrow> r = Inl e \<longrightarrow> e = UndefinedShift" for r
  proof (rule insert_loop.raw_induct [where P = "\<lambda>H key val cur t r. r = Inl e \<longrightarrow> e = UndefinedShift"])
    fix f H0 key0 val0 cur t r
    assume ih: "\<And>H0 key0 val0 cur t r. f H0 key0 val0 cur t = Some r \<Longrightarrow>
                  r = Inl e \<longrightarrow> e = UndefinedShift"
      and eq: "(if fits key0 cur t then Some (Inr (put_entry key0 val0 cur t))
                else case split_bucket H0 cur t of
                       Inl e \<Rightarrow> Some (Inl e)
                     | Inr t1 \<Rightarrow>
                         (case getIdx H0 key0 t1 of
                            Inl e \<Rightarrow> Some (Inl e)
                          | Inr index \<Rightarrow> f H0 key0 val0 (buckets t1 ! index) t1)) = Some r"
    show "r = Inl e \<longrightarrow> e = UndefinedShift"
      using eq ih
      by (auto simp: getIdx_eq dest: split_bucket_error split: if_splits sum.splits)
  qed
  with assms show ?thesis by blast
qed

lemma insert_loop_fits:
  "fits key cur t \<Longrightarrow> insert_loop H key val cur t = Some (Inr (put_entry key val cur t))"
  by (subst insert_loop.simps) simp

lemma insert_loop_split:
  assumes "\<not> fits key cur t" and "localDepth (heap t cur) < 31"
    and "globalDepth (split_exact H cur t) < 32"
  shows "insert_loop H key val cur t =
         insert_loop H key val (buckets (split_exact H cur t) ! slot H key (split_exact H cur t))
           (split_exact H cur t)"
  using assms by (subst insert_loop.simps) (simp add: split_bucket_eq getIdx_eq)

text \<open>
  In a well-formed state, the pass that does not go on ends in the undefined shift: of
  \<open>getIdx\<close> at global depth 32, if not before.
\<close>

lemma insert_loop_undefined:
  assumes nf: "\<not> fits key cur t"
    and le: "localDepth (heap t cur) \<le> globalDepth t"
    and no: "\<not> (localDepth (heap t cur) < 31 \<and> globalDepth (split_exact H cur t) < 32)"
  shows "insert_loop H key val cur t = Some (Inl UndefinedShift)"
proof (cases "split_bucket H cur t")
  case (Inl e)
  then have "e = UndefinedShift" by (rule split_bucket_error)
  with Inl nf show ?thesis by (subst insert_loop.simps) simp
next
  case (Inr t1)
  have "\<not> globalDepth t1 < 32"
  proof
    assume g: "globalDepth t1 < 32"
    from split_bucket_exact [OF Inr g le] g no show False by simp
  qed
  with Inr nf show ?thesis by (subst insert_loop.simps) (simp add: getIdx_eq)
qed

lemma split_exact_depth_bound:
  assumes "dir_ok t" and "cur = buckets t ! slot H key t" and "globalDepth t < 32"
    and "localDepth (heap t cur) < 31"
  shows "globalDepth (split_exact H cur t) < 32"
proof -
  have "slot H key t < length (buckets t)"
    using slot_less [of H key t] dir_ok_length [OF assms(1)] by simp
  from dir_okD(2) [OF assms(1) this] assms(2)
  have "localDepth (heap t cur) \<le> globalDepth t" by simp
  with assms(3,4) show ?thesis by (simp add: split_exact_globalDepth)
qed

lemma split_exact_depth_least:
  assumes "dir_ok t" and "cur = buckets t ! slot H key t"
  shows "localDepth (heap t cur) < globalDepth (split_exact H cur t)"
proof -
  have "slot H key t < length (buckets t)"
    using slot_less [of H key t] dir_ok_length [OF assms(1)] by simp
  from dir_okD(2) [OF assms(1) this] assms(2)
  have "localDepth (heap t cur) \<le> globalDepth t" by simp
  then show ?thesis by (simp add: split_exact_globalDepth)
qed

lemma insert_loop_returns:
  assumes "dir_ok t" and "keys_ok H t" and "cur = buckets t ! slot H key t"
    and "globalDepth t < 32" and "localDepth (heap t cur) + k \<le> 31"
    and "length (filter (\<lambda>kv. take_bit (localDepth (heap t cur) + k) (H (fst kv))
                             = take_bit (localDepth (heap t cur) + k) (H key))
                   (kmap (heap t cur))) < bucketSize t"
  shows "\<exists>t'. insert_loop H key val cur t = Some (Inr t')"
  using assms
proof (induction k arbitrary: t cur)
  case 0
  let ?i = "slot H key t"
  have i: "?i < length (buckets t)"
    using slot_less [of H key t] dir_ok_length [OF "0.prems"(1)] by simp
  have "take_bit (localDepth (heap t cur)) (H (fst kv)) = take_bit (localDepth (heap t cur)) (H key)"
    if "kv \<in> set (kmap (heap t cur))" for kv
    using keys_okD [OF "0.prems"(2) i, of kv] that
      target_slots_agree [OF "0.prems"(1) i, of H key] "0.prems"(3) by simp
  then have "filter (\<lambda>kv. take_bit (localDepth (heap t cur)) (H (fst kv))
                             = take_bit (localDepth (heap t cur)) (H key)) (kmap (heap t cur))
             = kmap (heap t cur)"
    by (simp add: filter_id_conv)
  with "0.prems"(6) have "fits key cur t" by (simp add: fits_def)
  then show ?case by (simp add: insert_loop_fits)
next
  case (Suc k)
  show ?case
  proof (cases "fits key cur t")
    case True
    then show ?thesis by (simp add: insert_loop_fits)
  next
    case False
    let ?t = "split_exact H cur t"
    let ?c = "buckets ?t ! slot H key ?t"
    let ?l = "localDepth (heap t cur)"
    have l30: "?l < 31" using Suc.prems(5) by simp
    have i: "slot H key t < length (buckets t)"
      using slot_less [of H key t] dir_ok_length [OF Suc.prems(1)] by simp
    have ok': "dir_ok ?t" using Suc.prems(1) i Suc.prems(3) by (rule dir_ok_split)
    have ks': "keys_ok H ?t" using Suc.prems(1,2) i Suc.prems(3) by (rule keys_ok_split)
    have g': "globalDepth ?t < 32"
      using Suc.prems(1,3,4) l30 by (rule split_exact_depth_bound)
    have hp: "heap ?t ?c = \<lparr>localDepth = Suc ?l,
            kmap = filter (\<lambda>kv. bit (H (fst kv)) ?l = bit (H key) ?l) (kmap (heap t cur))\<rparr>"
      using Suc.prems(1,3) by (rule target_after_split)
    define n where "n = ?l + Suc k"
    have n: "Suc ?l + k = n" "?l < n" by (simp_all add: n_def)
    have imp: "bit (H (fst kv)) ?l = bit (H key) ?l"
      if "take_bit n (H (fst kv)) = take_bit n (H key)" for kv
    proof -
      have "bit (take_bit n (H (fst kv))) ?l = bit (take_bit n (H key)) ?l"
        using that by simp
      then show ?thesis using n(2) by (simp add: bit_take_bit_iff)
    qed
    have "filter (\<lambda>kv. take_bit n (H (fst kv)) = take_bit n (H key))
            (filter (\<lambda>kv. bit (H (fst kv)) ?l = bit (H key) ?l) (kmap (heap t cur)))
          = filter (\<lambda>kv. take_bit n (H (fst kv)) = take_bit n (H key)) (kmap (heap t cur))"
      using imp by (rule filter_filter_imp)
    moreover have "length (filter (\<lambda>kv. take_bit n (H (fst kv)) = take_bit n (H key))
                     (kmap (heap t cur))) < bucketSize t"
      using Suc.prems(6) unfolding n_def .
    ultimately
    have c': "length (filter (\<lambda>kv. take_bit (localDepth (heap ?t ?c) + k) (H (fst kv))
                             = take_bit (localDepth (heap ?t ?c) + k) (H key))
                   (kmap (heap ?t ?c))) < bucketSize ?t"
      unfolding hp split_exact_bucketSize Bucket.simps n(1) by simp
    have b': "localDepth (heap ?t ?c) + k \<le> 31"
      unfolding hp using Suc.prems(5) by simp
    from Suc.IH [OF ok' ks' refl g' b' c']
    show ?thesis
      using insert_loop_split [OF False, of H val] l30 g' by simp
  qed
qed

lemma Insert_eq:
  "Insert H key val t =
     (if globalDepth t < 32 then insert_loop H key val (buckets t ! slot H key t) t
      else Some (Inl UndefinedShift))"
  by (simp add: Insert_def getIdx_eq)

lemma Insert_returns:
  assumes ok: "dir_ok t" and ks: "keys_ok H t" and g: "globalDepth t < 32"
    and c: "length (colliding H key t) < bucketSize t"
  shows "\<exists>t'. Insert H key val t = Some (Inr t')"
proof -
  let ?cur = "buckets t ! slot H key t"
  have i: "slot H key t < length (buckets t)"
    using slot_less [of H key t] dir_ok_length [OF ok] by simp
  have l: "localDepth (heap t ?cur) \<le> globalDepth t" using dir_okD(2) [OF ok i] .
  define k where "k = 31 - localDepth (heap t ?cur)"
  have k: "localDepth (heap t ?cur) + k = 31" using l g by (simp add: k_def)
  have "length (filter (\<lambda>kv. take_bit (localDepth (heap t ?cur) + k) (H (fst kv))
                      = take_bit (localDepth (heap t ?cur) + k) (H key)) (kmap (heap t ?cur)))
          < bucketSize t"
    using c unfolding k colliding_def .
  from insert_loop_returns [OF ok ks refl g _ this] k show ?thesis
    by (simp add: Insert_eq g)
qed

lemma Insert_fits:
  "globalDepth t < 32 \<Longrightarrow> fits key (buckets t ! slot H key t) t \<Longrightarrow>
   Insert H key val t = Some (Inr (put_entry key val (buckets t ! slot H key t) t))"
  by (simp add: Insert_eq insert_loop_fits)


lemma jammed_not_fits:
  assumes j: "jammed H key cur t"
  shows "\<not> fits key cur t"
proof -
  let ?P = "\<lambda>kv. take_bit 31 (H (fst kv)) = take_bit 31 (H key)"
  have nk: "map_of (kmap (heap t cur)) key = None"
    and full: "bucketSize t \<le> length (filter ?P (kmap (heap t cur)))"
    using j unfolding jammed_def by blast+
  have "length (filter ?P (kmap (heap t cur))) \<le> length (kmap (heap t cur))"
    by (rule length_filter_le)
  with full have "\<not> length (kmap (heap t cur)) < bucketSize t" by linarith
  with nk show ?thesis by (simp add: fits_def)
qed

lemma jammed_split:
  assumes j: "jammed H key cur t" and g: "globalDepth (split_exact H cur t) < 32"
  shows "jammed H key (buckets (split_exact H cur t) ! slot H key (split_exact H cur t))
           (split_exact H cur t)"
proof -
  let ?t = "split_exact H cur t"
  let ?c = "buckets ?t ! slot H key ?t"
  let ?l = "localDepth (heap t cur)"
  let ?P = "\<lambda>kv. take_bit 31 (H (fst kv)) = take_bit 31 (H key)"
  have ok: "dir_ok t" and cur: "cur = buckets t ! slot H key t"
    and nk: "map_of (kmap (heap t cur)) key = None"
    and full: "bucketSize t \<le> length (filter ?P (kmap (heap t cur)))"
    using j unfolding jammed_def by blast+
  have i: "slot H key t < length (buckets t)"
    using slot_less [of H key t] dir_ok_length [OF ok] by simp
  have l30: "?l < 31" using split_exact_depth_least [OF ok cur] g by simp
  have ok': "dir_ok ?t" using ok i cur by (rule dir_ok_split)
  have hp: "heap ?t ?c = \<lparr>localDepth = Suc ?l,
            kmap = filter (\<lambda>kv. bit (H (fst kv)) ?l = bit (H key) ?l) (kmap (heap t cur))\<rparr>"
    using ok cur by (rule target_after_split)
  have imp: "bit (H (fst kv)) ?l = bit (H key) ?l" if "?P kv" for kv
  proof -
    have "bit (take_bit 31 (H (fst kv))) ?l = bit (take_bit 31 (H key)) ?l"
      using that by simp
    then show ?thesis using l30 by (simp add: bit_take_bit_iff)
  qed
  have "filter ?P (filter (\<lambda>kv. bit (H (fst kv)) ?l = bit (H key) ?l) (kmap (heap t cur)))
        = filter ?P (kmap (heap t cur))"
    using imp by (rule filter_filter_imp)
  moreover have "map_of (filter (\<lambda>kv. bit (H (fst kv)) ?l = bit (H key) ?l) (kmap (heap t cur))) key = None"
    using nk by (auto simp: map_of_eq_None_iff)
  ultimately show ?thesis
    using ok' full unfolding jammed_def hp by (simp add: split_exact_bucketSize)
qed

lemma target_depth:
  assumes "dir_ok t"
  shows "localDepth (heap t (buckets t ! slot H key t)) \<le> globalDepth t"
proof -
  have "slot H key t < length (buckets t)"
    using slot_less [of H key t] dir_ok_length [OF assms] by simp
  from dir_okD(2) [OF assms this] show ?thesis .
qed

lemma target_depth_cur:
  "dir_ok t \<Longrightarrow> cur = buckets t ! slot H key t \<Longrightarrow> localDepth (heap t cur) \<le> globalDepth t"
  using target_depth [of t H key] by simp

lemma jammed_depth:
  assumes "jammed H key cur t"
  shows "localDepth (heap t cur) \<le> globalDepth t"
proof -
  have ok: "dir_ok t" and cur: "cur = buckets t ! slot H key t"
    using assms unfolding jammed_def by blast+
  from target_depth [OF ok, of H key] cur show ?thesis by simp
qed

lemma jammed_never_returns:
  assumes "jammed H key cur t"
  shows "insert_loop H key val cur t \<noteq> Some (Inr t')"
proof
  assume run: "insert_loop H key val cur t = Some (Inr t')"
  show False
    by (rule insert_loop_rule [where I = "jammed H key" and Q = "\<lambda>t. False", OF run assms])
      (erule jammed_depth, erule (1) jammed_split, drule jammed_not_fits, simp)
qed

text \<open>On a table of the right shape the loop ends, in \<open>return\<close> or in the undefined shift.\<close>

lemma insert_loop_ends:
  assumes "dir_ok t" and "cur = buckets t ! slot H key t"
    and "n = 32 - localDepth (heap t cur)"
  shows "\<exists>r. insert_loop H key val cur t = Some r"
  using assms
proof (induction n arbitrary: t cur)
  case 0
  then have l: "\<not> localDepth (heap t cur) < 31" by simp
  have le: "localDepth (heap t cur) \<le> globalDepth t"
    using target_depth [OF "0.prems"(1), of H key] "0.prems"(2) by simp
  show ?case
  proof (cases "fits key cur t")
    case True
    then show ?thesis by (simp add: insert_loop_fits)
  next
    case False
    from insert_loop_undefined [OF False le, of H val] l show ?thesis by simp
  qed
next
  case (Suc n)
  let ?t = "split_exact H cur t"
  let ?c = "buckets ?t ! slot H key ?t"
  have le: "localDepth (heap t cur) \<le> globalDepth t"
    using target_depth [OF Suc.prems(1), of H key] Suc.prems(2) by simp
  show ?case
  proof (cases "fits key cur t")
    case True
    then show ?thesis by (simp add: insert_loop_fits)
  next
    case False
    show ?thesis
    proof (cases "localDepth (heap t cur) < 31 \<and> globalDepth ?t < 32")
      case True
      have i: "slot H key t < length (buckets t)"
        using slot_less [of H key t] dir_ok_length [OF Suc.prems(1)] by simp
      have ok': "dir_ok ?t" using Suc.prems(1) i Suc.prems(2) by (rule dir_ok_split)
      have "localDepth (heap ?t ?c) = Suc (localDepth (heap t cur))"
        using target_after_split [OF Suc.prems(1,2)] by simp
      with Suc.prems(3) have "n = 32 - localDepth (heap ?t ?c)" by simp
      from Suc.IH [OF ok' refl this] show ?thesis
        using insert_loop_split [OF False, of H val] True by simp
    next
      case False2: False
      from insert_loop_undefined [OF False le False2, of val] show ?thesis by simp
    qed
  qed
qed

lemma jammed_undefined:
  assumes "jammed H key cur t"
  shows "insert_loop H key val cur t = Some (Inl UndefinedShift)"
proof -
  have ok: "dir_ok t" and cur: "cur = buckets t ! slot H key t"
    using assms unfolding jammed_def by blast+
  from insert_loop_ends [OF ok cur refl] obtain r where r: "insert_loop H key val cur t = Some r"
    by blast
  show ?thesis
  proof (cases r)
    case (Inl e)
    with r insert_loop_error [of H key val cur t e] show ?thesis by simp
  next
    case (Inr t')
    with r jammed_never_returns [OF assms, of val t'] show ?thesis by simp
  qed
qed

lemma Insert_jammed:
  assumes "dir_ok t" and "map_of (kmap (heap t (buckets t ! slot H key t))) key = None"
    and "bucketSize t \<le> length (colliding H key t)"
  shows "Insert H key val t = Some (Inl UndefinedShift)"
proof -
  have "jammed H key (buckets t ! slot H key t) t"
    using assms by (simp add: jammed_def colliding_def)
  from jammed_undefined [OF this] show ?thesis by (simp add: Insert_eq)
qed

subsection \<open>Lookups, and what \<open>Insert\<close> and \<open>Remove\<close> keep\<close>

lemma Find_eq:
  "Find H key val t =
     (if globalDepth t < 32
      then Inr (case map_of (kmap (heap t (buckets t ! slot H key t))) key of
                  None \<Rightarrow> (False, val)
                | Some w \<Rightarrow> (True, w))
      else Inl UndefinedShift)"
  by (simp add: Find_def getIdx_eq)

lemma Remove_eq:
  "Remove H key t =
     (if globalDepth t < 32
      then (if map_of (kmap (heap t (buckets t ! slot H key t))) key = None then Inr (False, t)
            else Inr (True, t\<lparr>heap := (heap t)
                   (buckets t ! slot H key t :=
                      (heap t (buckets t ! slot H key t))
                        \<lparr>kmap := AList.delete key (kmap (heap t (buckets t ! slot H key t)))\<rparr>)\<rparr>))
      else Inl UndefinedShift)"
  by (simp add: Remove_def getIdx_eq Let_def)

lemma Find_absent:
  assumes "length (buckets t) = 2 ^ globalDepth t" and "\<not> holds_key t key"
  shows "Find H key w t = (if globalDepth t < 32 then Inr (False, w) else Inl UndefinedShift)"
proof -
  have "buckets t ! slot H key t \<in> set (buckets t)"
    using assms(1) slot_less [of H key t] by simp
  then have "map_of (kmap (heap t (buckets t ! slot H key t))) key = None"
    using assms(2) by (auto simp: holds_key_def list_ex_iff)
  then show ?thesis by (simp add: Find_eq)
qed


lemma Insert_depth:
  assumes "Insert H key val t = Some (Inr t')"
  shows "globalDepth t' < 32"
proof -
  have g: "globalDepth t < 32" using assms by (auto simp: Insert_eq split: if_splits)
  with assms have run: "insert_loop H key val (buckets t ! slot H key t) t = Some (Inr t')"
    by (simp add: Insert_eq)
  show ?thesis
    by (rule insert_loop_rule_any [where I = "\<lambda>cur t. globalDepth t < 32"
          and Q = "\<lambda>t'. globalDepth t' < 32", OF run g])
      (simp_all add: put_entry_def)
qed


lemma dir_ok_step:
  assumes "dir_ok t \<and> cur = buckets t ! slot H key t"
  shows "dir_ok (split_exact H cur t) \<and>
         buckets (split_exact H cur t) ! slot H key (split_exact H cur t) =
         buckets (split_exact H cur t) ! slot H key (split_exact H cur t)"
proof -
  have ok: "dir_ok t" and cur: "cur = buckets t ! slot H key t" using assms by simp_all
  have "slot H key t < length (buckets t)"
    using slot_less [of H key t] dir_ok_length [OF ok] by simp
  from dir_ok_split [OF ok this cur] show ?thesis by simp
qed

lemma dir_ok_Insert:
  assumes "Insert H key val t = Some (Inr t')" and "dir_ok t"
  shows "dir_ok t'"
proof -
  have g: "globalDepth t < 32" using assms(1) by (auto simp: Insert_eq split: if_splits)
  with assms have run: "insert_loop H key val (buckets t ! slot H key t) t = Some (Inr t')"
    by (simp add: Insert_eq)
  have init: "dir_ok t \<and> buckets t ! slot H key t = buckets t ! slot H key t"
    using assms(2) by simp
  show ?thesis
    by (rule insert_loop_rule [where I = "\<lambda>cur t. dir_ok t \<and> cur = buckets t ! slot H key t"
          and Q = dir_ok, OF run init])
      (elim conjE, erule target_depth_cur, assumption,
        erule dir_ok_step, erule conjE, erule dir_ok_put_entry)
qed

lemma keys_ok_Insert:
  assumes "Insert H key val t = Some (Inr t')" and "dir_ok t" and "keys_ok H t"
  shows "keys_ok H t'"
proof -
  have g: "globalDepth t < 32" using assms(1) by (auto simp: Insert_eq split: if_splits)
  with assms have run: "insert_loop H key val (buckets t ! slot H key t) t = Some (Inr t')"
    by (simp add: Insert_eq)
  have init: "dir_ok t \<and> keys_ok H t \<and> buckets t ! slot H key t = buckets t ! slot H key t"
    using assms(2,3) by simp
  have step: "dir_ok (split_exact H cur t) \<and> keys_ok H (split_exact H cur t) \<and>
         buckets (split_exact H cur t) ! slot H key (split_exact H cur t) =
         buckets (split_exact H cur t) ! slot H key (split_exact H cur t)"
    if "dir_ok t \<and> keys_ok H t \<and> cur = buckets t ! slot H key t" for cur t
  proof -
    have i: "slot H key t < length (buckets t)"
      using slot_less [of H key t] dir_ok_length [of t] that by simp
    from that dir_ok_split [OF _ i, of cur H] keys_ok_split [OF _ _ i, of H cur]
    show ?thesis by simp
  qed
  show ?thesis
    by (rule insert_loop_rule [where I = "\<lambda>cur t. dir_ok t \<and> keys_ok H t \<and> cur = buckets t ! slot H key t"
          and Q = "keys_ok H", OF run init])
      (elim conjE, erule target_depth_cur, assumption,
        erule step, elim conjE, erule (2) keys_ok_put_entry)
qed

lemma table_ok_insert_all:
  "insert_all H kvs t = Some (Inr t') \<Longrightarrow> dir_ok t \<Longrightarrow> keys_ok H t \<Longrightarrow> globalDepth t < 32 \<Longrightarrow>
   dir_ok t' \<and> keys_ok H t' \<and> globalDepth t' < 32"
proof (induction kvs arbitrary: t)
  case Nil
  then show ?case by simp
next
  case (Cons kv kvs)
  obtain k v where kv: "kv = (k, v)" by (cases kv)
  from Cons.prems(1) obtain t1 where t1: "Insert H k v t = Some (Inr t1)" "insert_all H kvs t1 = Some (Inr t')"
    by (auto simp: kv split: option.splits sum.splits)
  from Cons.IH [OF t1(2) dir_ok_Insert [OF t1(1) Cons.prems(2)]
      keys_ok_Insert [OF t1(1) Cons.prems(2,3)] Insert_depth [OF t1(1)]]
  show ?case .
qed

lemma dir_ok_insert_all:
  "insert_all H kvs t = Some (Inr t') \<Longrightarrow> dir_ok t \<Longrightarrow> dir_ok t'"
proof (induction kvs arbitrary: t)
  case Nil
  then show ?case by simp
next
  case (Cons kv kvs)
  obtain k v where kv: "kv = (k, v)" by (cases kv)
  from Cons.prems(1) obtain t1 where t1: "Insert H k v t = Some (Inr t1)" "insert_all H kvs t1 = Some (Inr t')"
    by (auto simp: kv split: option.splits sum.splits)
  from Cons.IH [OF t1(2) dir_ok_Insert [OF t1(1) Cons.prems(2)]] show ?case .
qed

lemma Remove_simps:
  assumes "Remove H key t = Inr (b, t')"
  shows "buckets t' = buckets t" "globalDepth t' = globalDepth t" "heapTop t' = heapTop t"
    "localDepth (heap t' a) = localDepth (heap t a)"
    "set (kmap (heap t' a)) \<subseteq> set (kmap (heap t a))"
  using assms by (auto simp: Remove_eq AList.delete_eq split: if_splits)

lemma keys_ok_Remove:
  assumes "keys_ok H t" and r: "Remove H key t = Inr (b, t')"
  shows "keys_ok H t'"
  unfolding keys_ok_def Remove_simps(1,4) [OF r]
proof (intro allI impI ballI)
  fix i kv
  assume "i < length (buckets t)" "kv \<in> set (kmap (heap t' (buckets t ! i)))"
  then have "kv \<in> set (kmap (heap t (buckets t ! i)))"
    using Remove_simps(5) [OF r, of "buckets t ! i"] by blast
  with assms(1) \<open>i < length (buckets t)\<close>
  show "take_bit (localDepth (heap t (buckets t ! i))) (H (fst kv)) =
        take_bit (localDepth (heap t (buckets t ! i))) i"
    by (rule keys_okD)
qed

lemma dir_ok_Remove:
  assumes "dir_ok t" and r: "Remove H key t = Inr (b, t')"
  shows "dir_ok t'"
  using assms(1) unfolding dir_ok_def Remove_simps(1-4) [OF r] .

subsection \<open>LRU replacer\<close>

lemma inserted_before_Insert:
  "inserted_before h b a \<Longrightarrow> a \<noteq> v \<Longrightarrow> b \<noteq> v \<Longrightarrow> inserted_before (CallInsert v # h) b a"
  by (auto simp: inserted_before_def split: option.splits)

lemma inserted_before_Insert_new:
  "calls_since_insert h b \<noteq> None \<Longrightarrow> b \<noteq> v \<Longrightarrow> inserted_before (CallInsert v # h) b v"
  by (auto simp: inserted_before_def split: option.splits)

lemma inserted_before_Erase:
  "inserted_before h b a \<Longrightarrow> inserted_before (CallErase v # h) b a"
  by (auto simp: inserted_before_def split: option.splits)

lemma inserted_before_Victim:
  "inserted_before h b a \<Longrightarrow> inserted_before (CallVictim v # h) b a"
  by (auto simp: inserted_before_def split: option.splits)

lemma sorted_wrt_remove1_any: "sorted_wrt P r \<Longrightarrow> sorted_wrt P (remove1 v r)"
  by (induction r) (auto dest: notin_set_remove1)

lemma sorted_wrt_butlast_any: "sorted_wrt P r \<Longrightarrow> sorted_wrt P (butlast r)"
  by (induction r) (auto dest: in_set_butlastD)

lemma lru_inv_Insert:
  assumes "lru_inv h r"
  shows "lru_inv (CallInsert v # h) (lru_Insert v r)"
proof -
  have eq: "lru_Insert v r = v # remove1 v r"
    by (simp add: lru_Insert_def remove1_idem)
  have d: "distinct r" and s: "sorted_wrt (\<lambda>a b. inserted_before h b a) r"
    and n: "\<forall>u \<in> set r. calls_since_insert h u \<noteq> None"
    using assms by (simp_all add: lru_inv_def)
  have mem: "u \<in> set (remove1 v r) \<Longrightarrow> u \<in> set r \<and> u \<noteq> v" for u
    using d by simp
  have "sorted_wrt (\<lambda>a b. inserted_before h b a) (remove1 v r)"
    using s by (rule sorted_wrt_remove1_any)
  then have "sorted_wrt (\<lambda>a b. inserted_before (CallInsert v # h) b a) (remove1 v r)"
    by (rule sorted_wrt_mono_rel [rotated]) (auto dest!: mem intro: inserted_before_Insert)
  moreover have "\<forall>b \<in> set (remove1 v r). inserted_before (CallInsert v # h) b v"
    using n by (auto dest!: mem intro: inserted_before_Insert_new)
  moreover have "\<forall>u \<in> set (v # remove1 v r). calls_since_insert (CallInsert v # h) u \<noteq> None"
    using n by (auto dest!: mem)
  ultimately show ?thesis
    using d unfolding eq lru_inv_def by simp
qed

lemma lru_inv_Erase:
  assumes "lru_inv h r"
  shows "lru_inv (CallErase v # h) (snd (lru_Erase v r))"
proof -
  have eq: "snd (lru_Erase v r) = remove1 v r"
    by (simp add: lru_Erase_def remove1_idem)
  have "sorted_wrt (\<lambda>a b. inserted_before h b a) (remove1 v r)"
    using assms by (simp add: lru_inv_def sorted_wrt_remove1_any)
  then have "sorted_wrt (\<lambda>a b. inserted_before (CallErase v # h) b a) (remove1 v r)"
    by (rule sorted_wrt_mono_rel [rotated]) (rule inserted_before_Erase)
  then show ?thesis
    using assms unfolding eq lru_inv_def by (auto dest: notin_set_remove1)
qed

lemma lru_inv_Victim:
  assumes "lru_inv h r"
  shows "lru_inv (CallVictim v # h) (snd (snd (lru_Victim v r)))"
proof -
  have eq: "snd (snd (lru_Victim v r)) = butlast r"
    by (simp add: lru_Victim_def)
  have "sorted_wrt (\<lambda>a b. inserted_before h b a) (butlast r)"
    using assms by (simp add: lru_inv_def sorted_wrt_butlast_any)
  then have "sorted_wrt (\<lambda>a b. inserted_before (CallVictim v # h) b a) (butlast r)"
    by (rule sorted_wrt_mono_rel [rotated]) (rule inserted_before_Victim)
  then show ?thesis
    using assms unfolding eq lru_inv_def by (auto dest: in_set_butlastD simp: distinct_butlast)
qed

lemma lru_inv_after: "lru_inv h (lru_after h)"
proof (induction h)
  case Nil
  show ?case by (simp add: lru_inv_def LRUReplacer_new_def)
next
  case (Cons c h)
  then show ?case
    by (cases c) (simp_all add: lru_inv_Insert lru_inv_Erase lru_inv_Victim)
qed

lemma lru_inv_last:
  assumes "lru_inv h r" and "r \<noteq> []" and "u \<in> set r" and "u \<noteq> last r"
  shows "inserted_before h (last r) u"
proof -
  have r: "r = butlast r @ [last r]" using assms(2) by simp
  have "sorted_wrt (\<lambda>a b. inserted_before h b a) (butlast r @ [last r])"
    using assms(1) r by (simp add: lru_inv_def)
  moreover have "u \<in> set (butlast r)"
    using assms(3,4) r by (metis Un_iff empty_iff empty_set set_ConsD set_append)
  ultimately show ?thesis
    by (simp add: sorted_wrt_append)
qed

lemma lru_after_example: "lru_after lru_history_example = [1, 3, 2]"
  by (simp add: lru_history_example_def lru_Insert_def lru_Erase_def LRUReplacer_new_def)

text \<open>
  C6. On the empty replacer \<open>Victim\<close> returns false and changes nothing. On a
  replacer that is not empty, in the state reached by any history \<open>h\<close> of calls, it
  returns true, outputs a value \<open>v\<close> of the replacer and removes exactly \<open>v\<close>; the
  most recent \<open>Insert\<close> of \<open>v\<close> came before the most recent \<open>Insert\<close> of every other
  value in the replacer.
\<close>

theorem lru_Victim_oldest:
  "lru_Victim w LRUReplacer_new = (False, w, LRUReplacer_new) \<and>
   (lru_after h = [] \<longrightarrow> lru_Victim w (lru_after h) = (False, w, lru_after h)) \<and>
   (lru_after h \<noteq> [] \<longrightarrow>
      (\<exists>v. lru_Victim w (lru_after h) = (True, v, remove1 v (lru_after h))
          \<and> v \<in> set (lru_after h)
          \<and> set (remove1 v (lru_after h)) = set (lru_after h) - {v}
          \<and> (\<forall>u \<in> set (lru_after h). u \<noteq> v \<longrightarrow> inserted_before h v u)))"
proof (intro conjI impI)
  assume ne: "lru_after h \<noteq> []"
  have inv: "lru_inv h (lru_after h)" by (rule lru_inv_after)
  then have d: "distinct (lru_after h)" by (simp add: lru_inv_def)
  have "distinct (butlast (lru_after h) @ [last (lru_after h)])" using d ne by simp
  then have "remove1 (last (lru_after h)) (butlast (lru_after h) @ [last (lru_after h)]) = butlast (lru_after h)"
    by (simp add: remove1_append)
  then have b: "remove1 (last (lru_after h)) (lru_after h) = butlast (lru_after h)"
    using ne by simp
  show "\<exists>v. lru_Victim w (lru_after h) = (True, v, remove1 v (lru_after h))
          \<and> v \<in> set (lru_after h)
          \<and> set (remove1 v (lru_after h)) = set (lru_after h) - {v}
          \<and> (\<forall>u \<in> set (lru_after h). u \<noteq> v \<longrightarrow> inserted_before h v u)"
  proof (intro exI [of _ "last (lru_after h)"] conjI ballI impI)
    show "lru_Victim w (lru_after h) = (True, last (lru_after h), remove1 (last (lru_after h)) (lru_after h))"
      using ne b by (simp add: lru_Victim_def)
    show "last (lru_after h) \<in> set (lru_after h)" using ne by simp
    show "set (remove1 (last (lru_after h)) (lru_after h)) = set (lru_after h) - {last (lru_after h)}"
      using d by simp
  next
    fix u assume "u \<in> set (lru_after h)" "u \<noteq> last (lru_after h)"
    with inv ne show "inserted_before h (last (lru_after h)) u" by (rule lru_inv_last)
  qed
qed (simp_all add: lru_Victim_def LRUReplacer_new_def)

theorem lru_Victim_oldest_witness:
  "lru_after lru_history_example \<noteq> []
   \<and> lru_Victim 0 (lru_after lru_history_example) = (True, 2, [1, 3])
   \<and> inserted_before lru_history_example 2 1 \<and> inserted_before lru_history_example 2 3"
proof -
  have ne: "lru_after lru_history_example \<noteq> []" by (simp add: lru_after_example)
  from lru_Victim_oldest [of 0 lru_history_example] ne obtain v where
    v: "lru_Victim 0 (lru_after lru_history_example) = (True, v, remove1 v (lru_after lru_history_example))"
    "\<forall>u \<in> set (lru_after lru_history_example). u \<noteq> v \<longrightarrow> inserted_before lru_history_example v u"
    by blast
  from v(1) have "v = 2" by (simp add: lru_after_example lru_Victim_def)
  with v ne show ?thesis by (simp add: lru_after_example)
qed

subsection \<open>Extendible hash: examples and claims\<close>

lemma depth_new: "globalDepth (ExtendibleHash_new sz) < 32"
  by (simp add: ExtendibleHash_new_def)












text \<open>
  Page ids 0 and \<open>- 2 ^ 31\<close> have hashes that differ only from bit 31 on: with page 0 in
  a bucket of capacity 1, \<open>Insert\<close> of page \<open>- 2 ^ 31\<close> ends in the undefined shift.
\<close>

lemma Insert_far_bit_example:
  "Insert hash_page_id (- 2147483648) 20 single_example = Some (Inl UndefinedShift)"
proof -
  have h: "hash_page_id (- 2147483648) = 18446744071562067968" "hash_page_id 0 = 0"
    by (simp_all add: hash_page_id_def)
  have s: "slot hash_page_id (- 2147483648) single_example = 0"
    by (simp add: slot_def single_example_def put_entry_def ExtendibleHash_new_def)
  have t: "take_bit 31 (18446744071562067968 :: nat) = 0"
    by (simp add: take_bit_eq_mod)
  have "dir_ok single_example"
    unfolding single_example_def by (intro dir_ok_put_entry dir_ok_new)
  moreover have "map_of (kmap (heap single_example
      (buckets single_example ! slot hash_page_id (- 2147483648) single_example))) (- 2147483648) = None"
    unfolding s by (simp add: single_example_def put_entry_def ExtendibleHash_new_def Bucket_new_def)
  moreover have "bucketSize single_example \<le> length (colliding hash_page_id (- 2147483648) single_example)"
    unfolding colliding_def s h
    by (simp add: single_example_def put_entry_def ExtendibleHash_new_def Bucket_new_def h t)
  ultimately show ?thesis by (rule Insert_jammed)
qed

text \<open>
  Page ids 0 and \<open>2 ^ 30\<close> have hashes that differ at bit 30: with page 0 in a bucket of
  capacity 1, \<open>Insert\<close> of page \<open>2 ^ 30\<close> returns.
\<close>

lemma Insert_near_bit_example:
  "\<exists>t'. Insert hash_page_id 1073741824 20 single_example = Some (Inr t')"
proof -
  have ok: "dir_ok single_example"
    unfolding single_example_def by (intro dir_ok_put_entry dir_ok_new)
  have ks: "keys_ok hash_page_id single_example"
    by (simp add: keys_ok_def single_example_def put_entry_def ExtendibleHash_new_def
        Bucket_new_def)
  have g: "globalDepth single_example < 32"
    by (simp add: single_example_def put_entry_def ExtendibleHash_new_def)
  have c: "length (colliding hash_page_id 1073741824 single_example) < bucketSize single_example"
    by (simp add: colliding_def slot_def single_example_def put_entry_def ExtendibleHash_new_def
        Bucket_new_def hash_page_id_def take_bit_eq_mod)
  from Insert_returns [OF ok ks g c, of 20] show ?thesis .
qed




text \<open>
  C4. After every sequence of \<open>Insert\<close> calls that return, starting from the table of
  the constructor, the directory has \<open>2 ^ globalDepth\<close> slots, and every bucket \<open>a\<close> of
  the directory has a local depth of at most the global depth and is referenced by
  \<open>2 ^ (globalDepth - localDepth)\<close> slots.
\<close>

theorem insert_all_directory_shape:
  assumes "insert_all H kvs (ExtendibleHash_new sz) = Some (Inr t)"
  shows "length (buckets t) = 2 ^ globalDepth t \<and>
         (\<forall>a \<in> set (buckets t).
            localDepth (heap t a) \<le> globalDepth t \<and>
            slots_of t a = 2 ^ (globalDepth t - localDepth (heap t a)))"
proof -
  have "dir_ok t" using assms dir_ok_new by (rule dir_ok_insert_all)
  then show ?thesis
    using dir_ok_length slots_of_dir_ok by blast
qed

lemma insert_all_example:
  "map_option (map_sum id shape)
     (insert_all hash_id [(0, 10), (4, 20), (8, 30::nat)] (ExtendibleHash_new 2))
   = Some (Inr (3, 2, 4, [0, 1, 2, 1, 3, 1, 2, 1], 4,
       [\<lparr>localDepth = 3, kmap = [(0, 10), (8, 30)]\<rparr>, \<lparr>localDepth = 1, kmap = []\<rparr>,
        \<lparr>localDepth = 2, kmap = []\<rparr>, \<lparr>localDepth = 3, kmap = [(4, 20)]\<rparr>]))"
  by code_simp

theorem insert_all_directory_shape_witness:
  "\<exists>t. insert_all hash_id [(0, 10), (4, 20), (8, 30::nat)] (ExtendibleHash_new 2) = Some (Inr t)
      \<and> globalDepth t = 3 \<and> buckets t = [0, 1, 2, 1, 3, 1, 2, 1] \<and> length (buckets t) = 2 ^ 3
      \<and> localDepth (heap t 0) = 3 \<and> slots_of t 0 = 2 ^ (3 - 3)
      \<and> localDepth (heap t 1) = 1 \<and> slots_of t 1 = 2 ^ (3 - 1)
      \<and> localDepth (heap t 2) = 2 \<and> slots_of t 2 = 2 ^ (3 - 2)
      \<and> localDepth (heap t 3) = 3 \<and> slots_of t 3 = 2 ^ (3 - 3)"
proof -
  from insert_all_example obtain r where
    r: "insert_all hash_id [(0, 10), (4, 20), (8, 30::nat)] (ExtendibleHash_new 2) = Some r"
    and m: "map_sum id shape r = Inr (3, 2, 4, [0, 1, 2, 1, 3, 1, 2, 1], 4,
       [\<lparr>localDepth = 3, kmap = [(0, 10), (8, 30)]\<rparr>, \<lparr>localDepth = 1, kmap = []\<rparr>,
        \<lparr>localDepth = 2, kmap = []\<rparr>, \<lparr>localDepth = 3, kmap = [(4, 20)]\<rparr>])"
    by (auto simp: map_option_case split: option.splits)
  from m obtain t where t: "r = Inr t"
    and sh: "shape t = (3, 2, 4, [0, 1, 2, 1, 3, 1, 2, 1], 4,
       [\<lparr>localDepth = 3, kmap = [(0, 10), (8, 30)]\<rparr>, \<lparr>localDepth = 1, kmap = []\<rparr>,
        \<lparr>localDepth = 2, kmap = []\<rparr>, \<lparr>localDepth = 3, kmap = [(4, 20)]\<rparr>])"
    by (cases r) auto
  have run: "insert_all hash_id [(0, 10), (4, 20), (8, 30::nat)] (ExtendibleHash_new 2) = Some (Inr t)"
    using r t by simp
  from sh have g: "globalDepth t = 3" and b: "buckets t = [0, 1, 2, 1, 3, 1, 2, 1]"
    and h: "heapTop t = 4" by (simp_all add: shape_def)
  from sh have "map (heap t) [0 ..< 4] = [\<lparr>localDepth = 3, kmap = [(0, 10), (8, 30)]\<rparr>, \<lparr>localDepth = 1, kmap = []\<rparr>,
        \<lparr>localDepth = 2, kmap = []\<rparr>, \<lparr>localDepth = 3, kmap = [(4, 20)]\<rparr>]"
    unfolding shape_def h by simp
  then have l: "localDepth (heap t 0) = 3" "localDepth (heap t 1) = 1"
    "localDepth (heap t 2) = 2" "localDepth (heap t 3) = 3"
    by (simp_all add: upt_rec numeral_eq_Suc)
  from insert_all_directory_shape [OF run]
  have "length (buckets t) = 2 ^ globalDepth t"
    and "\<forall>a \<in> set (buckets t). slots_of t a = 2 ^ (globalDepth t - localDepth (heap t a))"
    by blast+
  then have "length (buckets t) = 2 ^ 3" "slots_of t 0 = 2 ^ (3 - 3)" "slots_of t 1 = 2 ^ (3 - 1)"
    "slots_of t 2 = 2 ^ (3 - 2)" "slots_of t 3 = 2 ^ (3 - 3)"
    unfolding g using b l by simp_all
  with run g b l show ?thesis by blast
qed





subsection \<open>Buffer pool manager\<close>

lemma sint_increment:
  "sint (x + 1 :: 32 word) = (if sint x = 2147483647 then - 2147483648 else sint x + 1)"
proof -
  have r: "- 2147483648 \<le> sint x" "sint x < 2147483648"
    using sint_ge [of x] sint_lt [of x] by simp_all
  have e: "sint (x + 1) = signed_take_bit 31 (sint x + 1)"
    by (simp add: sint_word_ariths)
  show ?thesis
  proof (cases "sint x = 2147483647")
    case True
    then show ?thesis unfolding e by (simp add: signed_take_bit_eq_take_bit_shift take_bit_eq_mod)
  next
    case False
    with r have "- (2 ^ 31) \<le> sint x + 1" "sint x + 1 < 2 ^ 31" by simp_all
    then have "signed_take_bit 31 (sint x + 1) = sint x + 1"
      by (rule signed_take_bit_int_eq_self)
    with False show ?thesis unfolding e by simp
  qed
qed

lemma Find_pool_example:
  "Find hash_page_id 5 None (page_table (pool_example c b)) = Inr (True, Some 0)"
  by (simp add: Find_eq)
     (simp add: pool_example_def put_entry_def ExtendibleHash_new_def Bucket_new_def
      slot_def hash_page_id_def)

lemma Find_pool_example_9:
  "Find hash_page_id 9 None (page_table (pool_example c b)) = Inr (False, None)"
  by (simp add: Find_eq)
     (simp add: pool_example_def put_entry_def ExtendibleHash_new_def Bucket_new_def
      slot_def hash_page_id_def)

text \<open>
  The states of the example pool are reached through the interface: \<open>NewPage\<close> on a
  fresh pool, then unpinning page 5, or fetching it again and unpinning it as dirty.
\<close>

lemma pool_example_reached:
  "NewPage hash_page_id 0
     (BufferPoolManager_new 2 4 1 \<lparr>next_page_id = 5, contents = (\<lambda>p. []), calls = []\<rparr>)
   = Some (Inr (Some 0, 5, pool_example 1 False))"
  by (simp add: NewPage_def BufferPoolManager_new_def GetVictimPage_def GetPinCount_def
      INVALID_PAGE_ID_def AllocatePage_def Remove_eq Insert_eq insert_loop_fits
      ExtendibleHash_new_def Bucket_new_def slot_def
      fits_def put_entry_def pool_example_def disk_example_def ResetMemory_def
      hash_page_id_def LRUReplacer_new_def)

lemma pool_example_unpinned:
  "UnpinPage hash_page_id 5 d (pool_example 1 b) = Inr (True, pool_example 0 d)"
  by (simp add: UnpinPage_def Find_pool_example Let_def GetPinCount_def)
     (simp add: pool_example_def lru_Insert_def)

lemma pool_example_fetched:
  "FetchPage hash_page_id 5 (pool_example 1 False) = Some (Inr (Some 0, pool_example 2 False))"
  by (simp add: FetchPage_def Find_pool_example)
     (simp add: pool_example_def lru_Erase_def)

lemma pool_example_dirtied:
  "UnpinPage hash_page_id 5 True (pool_example 2 False) = Inr (True, pool_example 1 True)"
  by (simp add: UnpinPage_def Find_pool_example Let_def GetPinCount_def)
     (simp add: pool_example_def)

lemma evicted_page_table:
  "Remove hash_page_id 5 (page_table (pool_example c b)) = Inr (True, ExtendibleHash_new 2)"
  "Insert hash_page_id 6 (Some (0::nat)) (ExtendibleHash_new 2)
     = Some (Inr (put_entry 6 (Some 0) 0 (ExtendibleHash_new 2)))"
proof -
  show "Remove hash_page_id 5 (page_table (pool_example c b)) = Inr (True, ExtendibleHash_new 2)"
    by (simp add: Remove_eq)
       (simp add: pool_example_def put_entry_def ExtendibleHash_new_def Bucket_new_def slot_def
          hash_page_id_def fun_eq_iff)
  have "fits 6 (buckets (ExtendibleHash_new 2 :: (page_id_t, page_ptr) ExtendibleHash)
          ! slot hash_page_id 6 (ExtendibleHash_new 2 :: (page_id_t, page_ptr) ExtendibleHash))
          (ExtendibleHash_new 2 :: (page_id_t, page_ptr) ExtendibleHash)"
    by (simp add: fits_def ExtendibleHash_new_def Bucket_new_def slot_def)
  from Insert_fits [OF depth_new this, of "Some 0"]
  show "Insert hash_page_id 6 (Some (0::nat)) (ExtendibleHash_new 2)
     = Some (Inr (put_entry 6 (Some 0) 0 (ExtendibleHash_new 2)))"
    by (simp add: ExtendibleHash_new_def slot_def)
qed

lemma evict_example:
  "\<exists>s'. NewPage hash_page_id 0 (pool_example 0 d) = Some (Inr (Some 0, 6, s'))
        \<and> calls (disk_manager s') =
            (if d then [CallAllocatePage, CallAllocatePage, CallWritePage 5]
             else [CallAllocatePage, CallAllocatePage])"
proof -
  have g: "GetVictimPage (pool_example 0 d) = Inr (Some 0, (pool_example 0 d)\<lparr>replacer := []\<rparr>)"
    by (simp add: GetVictimPage_def pool_example_def lru_Size_def lru_Victim_def GetPinCount_def)
  have p: "pages (pool_example 0 d) 0 = \<lparr>page_id = 5, pin_count = 0, is_dirty = d, data = replicate 4 0\<rparr>"
    and t: "page_table ((pool_example 0 d)\<lparr>replacer := []\<rparr>) = page_table (pool_example 0 d)"
    by (simp_all add: pool_example_def)
  have dm: "disk_manager (pool_example 0 b) = disk_example" for b
    by (simp add: pool_example_def)
  show ?thesis
    unfolding NewPage_def g
    by (simp add: p t dm evicted_page_table AllocatePage_def disk_example_def WritePage_def)
qed

text \<open>
  C1. The code breaks the claim. Page 5 is resident, pinned once and dirty;
  \<open>UnpinPage(5, false)\<close> returns true and leaves the frame clean and evictable, so the
  flag is not the disjunction of its previous value and \<open>false\<close>. The next \<open>NewPage\<close>
  evicts the frame and the disk manager receives no \<open>WritePage\<close> for page 5: the
  modification is lost, although the eviction paths (lines 61 and 176) are there to
  write a modified page back.
\<close>

theorem UnpinPage_clears_dirty:
  "Find hash_page_id 5 None (page_table (pool_example 1 True)) = Inr (True, Some 0)
   \<and> GetPinCount (pages (pool_example 1 True) 0) > 0
   \<and> is_dirty (pages (pool_example 1 True) 0)
   \<and> UnpinPage hash_page_id 5 False (pool_example 1 True) = Inr (True, pool_example 0 False)
   \<and> \<not> is_dirty (pages (pool_example 0 False) 0)
   \<and> (\<exists>s'. NewPage hash_page_id 0 (pool_example 0 False) = Some (Inr (Some 0, 6, s'))
          \<and> calls (disk_manager s') = [CallAllocatePage, CallAllocatePage])"
  using evict_example [of False]
  by (simp add: Find_pool_example pool_example_unpinned)
     (simp add: pool_example_def GetPinCount_def)

text \<open>
  C2 (as amended). For a page id that the page table does not map, \<open>DeletePage\<close> returns
  true; the disk manager receives \<open>DeallocatePage\<close> of that id and nothing else changes.
\<close>

theorem DeletePage_absent:
  assumes "Find H p None (page_table s) = Inr (False, None)"
  shows "DeletePage H p s = Inr (True, s\<lparr>disk_manager := DeallocatePage p (disk_manager s)\<rparr>)"
  using assms by (simp add: DeletePage_def)

theorem DeletePage_absent_witness:
  "Find hash_page_id 9 None (page_table (pool_example 1 False)) = Inr (False, None)
   \<and> DeletePage hash_page_id 9 (pool_example 1 False)
     = Inr (True, (pool_example 1 False)
          \<lparr>disk_manager := DeallocatePage 9 (disk_manager (pool_example 1 False))\<rparr>)"
  using DeletePage_absent [OF Find_pool_example_9 [of 1 False]]
  by (simp add: Find_pool_example_9)

text \<open>
  C2 as stated fails: page 9 is not resident and \<open>DeletePage(9)\<close> returns true, not false.
\<close>

theorem DeletePage_absent_counterexample:
  "Find hash_page_id 9 None (page_table (pool_example 1 False)) = Inr (False, None)
   \<and> map_sum id fst (DeletePage hash_page_id 9 (pool_example 1 False)) = Inr True
   \<and> map_sum id fst (DeletePage hash_page_id 9 (pool_example 1 False)) \<noteq> Inr False"
  by (simp add: Find_pool_example_9 DeletePage_def)

text \<open>
  C5. For a page \<open>p\<close> that the page table maps to frame \<open>f\<close>, \<open>FetchPage(p)\<close> returns
  \<open>f\<close>, the pin count of \<open>f\<close> is incremented (as the 32-bit \<open>int\<close> it is: one more
  than before, and from \<open>2 ^ 31 - 1\<close> around to \<open>- 2 ^ 31\<close>), \<open>f\<close> is taken out of the
  replacer (which stays as it is when \<open>f\<close> is not there), and the disk manager has
  received no call: nothing else of the state changes.
\<close>

theorem FetchPage_resident:
  assumes "Find H p None (page_table s) = Inr (True, Some f)"
  shows "\<exists>s'. FetchPage H p s = Some (Inr (Some f, s'))
           \<and> pin_count (pages s' f) = pin_count (pages s f) + 1
           \<and> GetPinCount (pages s' f) =
               (if GetPinCount (pages s f) = 2147483647 then - 2147483648
                else GetPinCount (pages s f) + 1)
           \<and> replacer s' = (if Some f \<in> set (replacer s) then remove1 (Some f) (replacer s)
                            else replacer s)
           \<and> calls (disk_manager s') = calls (disk_manager s)
           \<and> s' = s\<lparr>pages := (pages s)(f := (pages s f)\<lparr>pin_count := pin_count (pages s f) + 1\<rparr>),
                     replacer := (if Some f \<in> set (replacer s) then remove1 (Some f) (replacer s)
                                  else replacer s)\<rparr>"
  using assms by (simp add: FetchPage_def lru_Erase_def GetPinCount_def sint_increment)

theorem FetchPage_resident_witness:
  "Find hash_page_id 5 None (page_table (pool_example 0 False)) = Inr (True, Some 0)
   \<and> (\<exists>s'. FetchPage hash_page_id 5 (pool_example 0 False) = Some (Inr (Some 0, s'))
           \<and> pin_count (pages s' 0) = 1
           \<and> GetPinCount (pages s' 0) = 1
           \<and> replacer s' = []
           \<and> calls (disk_manager s') = [CallAllocatePage])"
proof -
  have h: "Find hash_page_id 5 None (page_table (pool_example 0 False)) = Inr (True, Some 0)"
    by (rule Find_pool_example)
  from FetchPage_resident [OF h] obtain s' where
    "FetchPage hash_page_id 5 (pool_example 0 False) = Some (Inr (Some 0, s'))"
    "pin_count (pages s' 0) = pin_count (pages (pool_example 0 False) 0) + 1"
    "GetPinCount (pages s' 0) =
       (if GetPinCount (pages (pool_example 0 False) 0) = 2147483647 then - 2147483648
        else GetPinCount (pages (pool_example 0 False) 0) + 1)"
    "replacer s' = (if Some 0 \<in> set (replacer (pool_example 0 False))
                     then remove1 (Some 0) (replacer (pool_example 0 False))
                     else replacer (pool_example 0 False))"
    "calls (disk_manager s') = calls (disk_manager (pool_example 0 False))"
    by blast
  then have "FetchPage hash_page_id 5 (pool_example 0 False) = Some (Inr (Some 0, s'))
           \<and> pin_count (pages s' 0) = 1 \<and> GetPinCount (pages s' 0) = 1 \<and> replacer s' = []
           \<and> calls (disk_manager s') = [CallAllocatePage]"
    by (simp add: pool_example_def disk_example_def GetPinCount_def)
  with h show ?thesis by blast
qed

text \<open>
  C8. For a page \<open>p\<close> resident in frame \<open>f\<close> with pin count at most 0, \<open>UnpinPage(p, d)\<close>
  returns false, and the state it leaves differs from the one before: the dirty flag
  of \<open>f\<close> is \<open>d\<close>.
\<close>

theorem UnpinPage_underpinned:
  assumes "Find H p None (page_table s) = Inr (True, Some f)" and "GetPinCount (pages s f) \<le> 0"
  shows "UnpinPage H p d s = Inr (False, s\<lparr>pages := (pages s)(f := (pages s f)\<lparr>is_dirty := d\<rparr>)\<rparr>)"
  using assms by (simp add: UnpinPage_def Let_def GetPinCount_def)

theorem UnpinPage_underpinned_witness:
  "Find hash_page_id 5 None (page_table (pool_example 0 False)) = Inr (True, Some 0)
   \<and> GetPinCount (pages (pool_example 0 False) 0) \<le> 0
   \<and> UnpinPage hash_page_id 5 True (pool_example 0 False) = Inr (False, pool_example 0 True)
   \<and> is_dirty (pages (pool_example 0 True) 0)
   \<and> \<not> is_dirty (pages (pool_example 0 False) 0)"
proof -
  have p: "GetPinCount (pages (pool_example 0 False) 0) \<le> 0"
    by (simp add: pool_example_def GetPinCount_def)
  from UnpinPage_underpinned [OF Find_pool_example [of 0 False] p, of True]
  have "UnpinPage hash_page_id 5 True (pool_example 0 False) = Inr (False, pool_example 0 True)"
    by (simp add: pool_example_def)
  with p show ?thesis by (simp add: Find_pool_example) (simp add: pool_example_def)
qed

text \<open>
  C9. With the free list empty and the replacer empty, \<open>NewPage\<close> returns \<open>nullptr\<close>;
  the state, with the record of the calls to the disk manager, and the reference
  parameter are as before.
\<close>

theorem NewPage_exhausted:
  assumes "free_list s = []" and "lru_Size (replacer s) = 0"
  shows "NewPage H pid s = Some (Inr (None, pid, s))"
  using assms by (simp add: NewPage_def GetVictimPage_def)

theorem NewPage_exhausted_witness:
  "free_list (pool_example 1 False) = [] \<and> lru_Size (replacer (pool_example 1 False)) = 0
   \<and> NewPage hash_page_id 0 (pool_example 1 False) = Some (Inr (None, 0, pool_example 1 False))"
  using NewPage_exhausted [of "pool_example 1 False" hash_page_id 0]
  by (simp add: pool_example_def lru_Size_def)

text \<open>
  What a failed \<open>UnpinPage\<close> leaves is observable: when the frame is evicted next, the
  disk manager receives \<open>WritePage\<close> for page 5 exactly when the flag passed was true.
\<close>

lemma evict_after_failed_unpin:
  "UnpinPage hash_page_id 5 d (pool_example 0 False) = Inr (False, pool_example 0 d)
   \<and> (\<exists>s'. NewPage hash_page_id 0 (pool_example 0 d) = Some (Inr (Some 0, 6, s'))
          \<and> calls (disk_manager s') =
              (if d then [CallAllocatePage, CallAllocatePage, CallWritePage 5]
               else [CallAllocatePage, CallAllocatePage]))"
proof -
  have "UnpinPage hash_page_id 5 d (pool_example 0 False) = Inr (False, pool_example 0 d)"
    by (simp add: UnpinPage_def Find_pool_example Let_def GetPinCount_def)
       (simp add: pool_example_def)
  with evict_example [of d] show ?thesis by simp
qed

text \<open>
  C10. For a key that no bucket of the directory holds, \<open>Find\<close> returns false and the
  reference parameter keeps its content. The buffer pool manager passes a pointer
  that is \<open>nullptr\<close> and tests it after the call: for a page that the page table does
  not hold, \<open>UnpinPage\<close> returns false and changes nothing. (Both on a table of global
  depth below 32, as every table built by the code is; on any other the slot of the
  key is not defined.)
\<close>

theorem Find_absent_keeps_value:
  assumes "length (buckets t) = 2 ^ globalDepth t" and "\<not> holds_key t key"
    and "length (buckets (page_table s)) = 2 ^ globalDepth (page_table s)"
    and "\<not> holds_key (page_table s) p"
  shows "Find H key w t = (if globalDepth t < 32 then Inr (False, w) else Inl UndefinedShift)
         \<and> UnpinPage Hp p d s =
             (if globalDepth (page_table s) < 32 then Inr (False, s) else Inl UndefinedShift)"
  using Find_absent [OF assms(1,2), of H w] Find_absent [OF assms(3,4), of Hp None]
  by (simp add: UnpinPage_def)

theorem Find_absent_keeps_value_witness:
  "length (buckets (ExtendibleHash_new 2 :: (nat, nat) ExtendibleHash))
     = 2 ^ globalDepth (ExtendibleHash_new 2 :: (nat, nat) ExtendibleHash)
   \<and> \<not> holds_key (ExtendibleHash_new 2 :: (nat, nat) ExtendibleHash) 3
   \<and> length (buckets (page_table (pool_example 1 False)))
       = 2 ^ globalDepth (page_table (pool_example 1 False))
   \<and> \<not> holds_key (page_table (pool_example 1 False)) 9
   \<and> Find hash_id 3 7 (ExtendibleHash_new 2 :: (nat, nat) ExtendibleHash) = Inr (False, 7)
   \<and> UnpinPage hash_page_id 9 True (pool_example 1 False) = Inr (False, pool_example 1 False)"
proof -
  have a: "length (buckets (ExtendibleHash_new 2 :: (nat, nat) ExtendibleHash))
     = 2 ^ globalDepth (ExtendibleHash_new 2 :: (nat, nat) ExtendibleHash)"
    and b: "\<not> holds_key (ExtendibleHash_new 2 :: (nat, nat) ExtendibleHash) 3"
    by (simp_all add: ExtendibleHash_new_def holds_key_def Bucket_new_def)
  have c: "length (buckets (page_table (pool_example 1 False)))
       = 2 ^ globalDepth (page_table (pool_example 1 False))"
    and d: "\<not> holds_key (page_table (pool_example 1 False)) 9"
    by (simp_all add: pool_example_def put_entry_def ExtendibleHash_new_def holds_key_def
        Bucket_new_def)
  have g: "globalDepth (ExtendibleHash_new 2 :: (nat, nat) ExtendibleHash) < 32"
    "globalDepth (page_table (pool_example 1 False)) < 32"
    by (simp_all add: pool_example_def put_entry_def ExtendibleHash_new_def)
  from Find_absent_keeps_value [OF a b c d, of hash_id 7 hash_page_id True] a b c d g
  show ?thesis by simp
qed

end
